theory Spec2Isabelle
  imports Complex_Main
begin

section \<open>Conventions of the embedding\<close>

text \<open>
  The program is \<^verbatim>\<open>src/lib.cpp\<close> of fastGHQuad: Hermite polynomial recurrences, a
  companion-matrix root finder, and two Gauss-Hermite quadrature engines on top of LAPACK.

  \<^item> A C++ \<^verbatim>\<open>double\<close> is a \<^typ>\<open>real\<close>: finite values with exact arithmetic.
    Rounding is not modelled, except in \<open>hermitePolyCoef\<close>, whose values are integers and
    whose binary64 rounding is written out. Where the code can produce a non-finite
    double from finite ones (a division by zero, the logarithm of zero) the result is a
    \<^typ>\<open>real option\<close>, with \<open>None\<close> for the non-finite value.
  \<^item> A C++ \<^verbatim>\<open>int\<close> is an \<^typ>\<open>int\<close>; the products that give the size of a
    vector, and the increment of a loop counter whose bound is not an \<^verbatim>\<open>int\<close> below
    it, are guarded against signed overflow, and \<^verbatim>\<open>unsigned int\<close> arithmetic is
    written modulo \<open>2 ^ 32\<close>.
  \<^item> A \<^verbatim>\<open>std::vector\<close> is a list. An access outside the vector, a signed overflow
    and an out-of-range conversion are undefined behaviour in C++; the model stops there
    with a \<open>fault\<close>. A vector that is an output parameter is passed in and returned.
  \<^item> The LAPACK routines \<^verbatim>\<open>dstevx\<close> and \<^verbatim>\<open>dgeev\<close> are not part of the
    repository: each is a function parameter from the arguments of the call to what the
    routine writes back.
  \<^item> The console output (\<^verbatim>\<open>Rcpp::Rcout\<close>) is not modelled.
\<close>

datatype fault =
  OutOfBounds          \<comment> \<open>read or write outside a vector\<close>
  | SignedOverflow     \<comment> \<open>signed integer arithmetic leaves its range\<close>
  | ConversionRange    \<comment> \<open>a double converted to an integer type that cannot hold it\<close>
  | LengthError        \<comment> \<open>a vector requested with a negative size: the constructor throws
                          (\<^verbatim>\<open>std::vector\<close>) or R signals an error (\<^verbatim>\<open>NumericVector\<close>)\<close>

definition and_then :: "fault + 'a \<Rightarrow> ('a \<Rightarrow> fault + 'b) \<Rightarrow> fault + 'b" where
  "and_then r f = (case r of Inl e \<Rightarrow> Inl e | Inr v \<Rightarrow> f v)"

definition vec_get :: "'a list \<Rightarrow> int \<Rightarrow> fault + 'a" where
  "vec_get v i = (if 0 \<le> i \<and> i < int (length v) then Inr (v ! nat i) else Inl OutOfBounds)"

definition vec_set :: "'a list \<Rightarrow> int \<Rightarrow> 'a \<Rightarrow> fault + 'a list" where
  "vec_set v i a = (if 0 \<le> i \<and> i < int (length v) then Inr (v[nat i := a]) else Inl OutOfBounds)"

text \<open>\<^verbatim>\<open>vector<T> v(n)\<close>: \<open>n\<close> value-initialised elements.\<close>

definition new_vector :: "int \<Rightarrow> 'a \<Rightarrow> fault + 'a list" where
  "new_vector n z = (if n < 0 then Inl LengthError else Inr (replicate (nat n) z))"

text \<open>The product of two \<^verbatim>\<open>int\<close>.\<close>

definition int_mul :: "int \<Rightarrow> int \<Rightarrow> fault + int" where
  "int_mul a b =
     (if - (2 ^ 31) \<le> a * b \<and> a * b < 2 ^ 31 then Inr (a * b) else Inl SignedOverflow)"

text \<open>
  \<^verbatim>\<open>i++\<close> at the end of a pass of a loop whose counter \<open>i\<close> is an \<^verbatim>\<open>int\<close> and whose bound
  is the size of an R vector (an \<^verbatim>\<open>R_xlen_t\<close>, of 64 bits): the state \<open>s\<close> goes through
  unless the counter leaves the range of \<^verbatim>\<open>int\<close>.
\<close>

definition counter_step :: "int \<Rightarrow> 's \<Rightarrow> fault + 's" where
  "counter_step i s = (if i + 1 < 2 ^ 31 then Inr s else Inl SignedOverflow)"

text \<open>\<^verbatim>\<open>v.resize(k)\<close>: truncates, or extends with zeros.\<close>

definition resize :: "real list \<Rightarrow> nat \<Rightarrow> real list" where
  "resize v k = take k v @ replicate (k - length v) 0"

text \<open>
  A Fortran routine that writes \<open>vals\<close> from the start of the buffer \<open>buf\<close>; it
  overruns a buffer that is too short.
\<close>

definition write_out :: "'a list \<Rightarrow> 'a list \<Rightarrow> fault + 'a list" where
  "write_out buf vals =
     (if length vals \<le> length buf then Inr (vals @ drop (length vals) buf) else Inl OutOfBounds)"

text \<open>\<^verbatim>\<open>for (i = lo; i < hi; i++) body\<close>, on a state \<open>s\<close>; a fault in the body ends the loop.\<close>

function for_loop :: "int \<Rightarrow> int \<Rightarrow> (int \<Rightarrow> 's \<Rightarrow> fault + 's) \<Rightarrow> 's \<Rightarrow> fault + 's" where
  "for_loop i hi body s =
     (if i < hi then (case body i s of Inl e \<Rightarrow> Inl e | Inr s' \<Rightarrow> for_loop (i + 1) hi body s')
      else Inr s)"
  by pat_completeness auto
termination
  by (relation "measure (\<lambda>(i, hi, body, s). nat (hi - i))") auto

section \<open>buildHermiteJacobi\<close>

definition buildHermiteJacobi :: "int \<Rightarrow> real list \<Rightarrow> real list \<Rightarrow> fault + (real list \<times> real list)" where
  "buildHermiteJacobi n D E =
     and_then (for_loop 0 n (\<lambda>i D. vec_set D i 0) D) (\<lambda>D'.
     and_then (for_loop 0 (n - 1) (\<lambda>i E. vec_set E i (sqrt ((of_int i + 1) / 2))) E) (\<lambda>E'.
     Inr (D', E')))"

section \<open>quadInfoGolubWelsch\<close>

text \<open>The arguments of \<^verbatim>\<open>dstevx\<close> that carry information into the call.\<close>

record dstevx_args =
  stx_JOBZ :: char
  stx_RANGE :: char
  stx_N :: int
  stx_D :: "real list"
  stx_E :: "real list"
  stx_VL :: real
  stx_VU :: real
  stx_IL :: int
  stx_IU :: int
  stx_ABSTOL :: real
  stx_LDZ :: int

text \<open>
  What \<^verbatim>\<open>dstevx\<close> writes back: the number \<open>M\<close> of eigenvalues found, the eigenvalues
  (written from the start of \<open>W\<close>), the eigenvectors (column after column from the start
  of \<open>Z\<close>, each of \<open>N\<close> entries) and the status \<open>INFO\<close>.
\<close>

record dstevx_result =
  stx_M :: nat
  stx_W :: "real list"
  stx_Z :: "real list"
  stx_INFO :: int

definition DBL_EPSILON :: real where
  "DBL_EPSILON = 1 / 2 ^ 52"

text \<open>
  \<open>Mmax\<close> and the size of the eigenvector storage \<open>Z\<close>. \<open>predicted\<close> is the value of
  \<^verbatim>\<open>std::ceil(std::pow(2.0, 1.8177530512018800 + 0.5022347758669726 * std::log2(n)))\<close>
  converted to \<^verbatim>\<open>unsigned int\<close>: the transcendental functions of the C library are
  outside the model. \<open>Mmax\<close> is an \<^verbatim>\<open>unsigned int\<close>, so \<^verbatim>\<open>Mmax += 100\<close> and the
  product \<^verbatim>\<open>Mmax * n\<close> are computed modulo \<open>2 ^ 32\<close>.
\<close>

definition Mmax_of :: "nat \<Rightarrow> nat" where
  "Mmax_of predicted = (predicted + 100) mod 2 ^ 32"

definition Z_size :: "nat \<Rightarrow> int \<Rightarrow> nat" where
  "Z_size predicted n = nat ((int (Mmax_of predicted) * n) mod 2 ^ 32)"

definition dstevx_call :: "int \<Rightarrow> real list \<Rightarrow> real list \<Rightarrow> dstevx_args" where
  "dstevx_call n D E =
     \<lparr>stx_JOBZ = CHR ''V'', stx_RANGE = CHR ''V'', stx_N = n, stx_D = D, stx_E = E,
      stx_VL = - 4, stx_VU = 4, stx_IL = 0, stx_IU = 1, stx_ABSTOL = sqrt DBL_EPSILON,
      stx_LDZ = n\<rparr>"

text \<open>
  One pass of the pruning loop, on the state \<open>(x, w, numPoints)\<close>. The index
  \<^verbatim>\<open>i * n\<close> is a product of an \<^verbatim>\<open>unsigned int\<close> and an \<^verbatim>\<open>int\<close>.
\<close>

definition prune_step ::
  "int \<Rightarrow> real \<Rightarrow> real list \<Rightarrow> real list \<Rightarrow> int \<Rightarrow> real list \<times> real list \<times> int
     \<Rightarrow> fault + (real list \<times> real list \<times> int)" where
  "prune_step n mu0 W Z i s =
     (case s of (x, w, numPoints) \<Rightarrow>
       and_then (vec_get Z ((i * n) mod 2 ^ 32)) (\<lambda>z.
       let weightValue = mu0 * z * z in
       if weightValue < sqrt DBL_EPSILON then Inr (x, w, numPoints)
       else
         and_then (vec_get W i) (\<lambda>Wi.
         and_then (vec_set x numPoints Wi) (\<lambda>x'.
         and_then (vec_set w numPoints weightValue) (\<lambda>w'.
         Inr (x', w', numPoints + 1))))))"

text \<open>The part of \<open>quadInfoGolubWelsch\<close> after the call of \<^verbatim>\<open>dstevx\<close>.\<close>

definition quadInfo_prune ::
  "int \<Rightarrow> real \<Rightarrow> nat \<Rightarrow> real list \<Rightarrow> real list \<Rightarrow> real list \<Rightarrow> real list
     \<Rightarrow> fault + (real list \<times> real list)" where
  "quadInfo_prune n mu0 M W Z x w =
     and_then (for_loop 0 (int M) (prune_step n mu0 W Z) (resize x M, resize w M, 0))
       (\<lambda>(x', w', numPoints). Inr (resize x' (nat numPoints), resize w' (nat numPoints)))"

text \<open>
  The vectors allocated before the call, in the order of the source: \<^verbatim>\<open>W(n)\<close>,
  \<^verbatim>\<open>Z(Mmax * n)\<close>, \<^verbatim>\<open>WORK(5 * n)\<close>, \<^verbatim>\<open>IWORK(5 * n)\<close> and \<^verbatim>\<open>IFAIL(n)\<close>, the products
  \<open>5 * n\<close> being products of \<^verbatim>\<open>int\<close>; then the call of \<^verbatim>\<open>dstevx\<close>, which writes \<open>W\<close> and
  \<open>Z\<close>; then the pruning.
\<close>

definition quadInfoGolubWelsch ::
  "(dstevx_args \<Rightarrow> dstevx_result) \<Rightarrow> nat \<Rightarrow> int \<Rightarrow> real list \<Rightarrow> real list \<Rightarrow> real
     \<Rightarrow> real list \<Rightarrow> real list \<Rightarrow> fault + (real list \<times> real list)" where
  "quadInfoGolubWelsch dstevx predicted n D E mu0 x w =
     and_then (new_vector n 0) (\<lambda>W.
     and_then (Inr (replicate (Z_size predicted n) 0)) (\<lambda>Z.
     and_then (int_mul 5 n) (\<lambda>n5.
     and_then (new_vector n5 (0::real)) (\<lambda>WORK.
     and_then (int_mul 5 n) (\<lambda>n5.
     and_then (new_vector n5 (0::int)) (\<lambda>IWORK.
     and_then (new_vector n (0::int)) (\<lambda>IFAIL.
     let r = dstevx (dstevx_call n D E) in
     and_then (write_out W (stx_W r)) (\<lambda>W'.
     and_then (write_out Z (stx_Z r)) (\<lambda>Z'.
     quadInfo_prune n mu0 (stx_M r) W' Z' x w)))))))))"

section \<open>gaussHermiteDataGolubWelsch\<close>

text \<open>The matrix the engine builds: \<^verbatim>\<open>vector<double> D(n), E(n); buildHermiteJacobi(n, &D, &E)\<close>.\<close>

definition hermite_jacobi :: "int \<Rightarrow> fault + (real list \<times> real list)" where
  "hermite_jacobi n =
     and_then (new_vector n 0) (\<lambda>D.
     and_then (new_vector n 0) (\<lambda>E.
     buildHermiteJacobi n D E))"

text \<open>The result is the returned status with the vectors \<open>x\<close> and \<open>w\<close>.\<close>

definition gaussHermiteDataGolubWelsch ::
  "(dstevx_args \<Rightarrow> dstevx_result) \<Rightarrow> nat \<Rightarrow> int \<Rightarrow> real list \<Rightarrow> real list
     \<Rightarrow> fault + (int \<times> real list \<times> real list)" where
  "gaussHermiteDataGolubWelsch dstevx predicted n x w =
     and_then (hermite_jacobi n) (\<lambda>(D, E).
     and_then (quadInfoGolubWelsch dstevx predicted n D E (sqrt pi) x w) (\<lambda>(x', w').
     Inr (0, x', w')))"


section \<open>findPolyRoots\<close>

text \<open>
  IEEE-754 division of finite doubles: nothing traps, and a division by zero gives an
  infinity or a NaN, which is \<open>None\<close>.
\<close>

definition ddiv :: "real \<Rightarrow> real \<Rightarrow> real option" where
  "ddiv a b = (if b = 0 then None else Some (a / b))"

text \<open>\<^verbatim>\<open>(int)d\<close>: truncation towards zero, undefined outside the range of \<^verbatim>\<open>int\<close>.\<close>

definition double_to_int :: "real \<Rightarrow> fault + int" where
  "double_to_int d =
     (let t = (if 0 \<le> d then \<lfloor>d\<rfloor> else \<lceil>d\<rceil>)
      in if - (2 ^ 31) \<le> t \<and> t < 2 ^ 31 then Inr t else Inl ConversionRange)"

text \<open>The arguments of \<^verbatim>\<open>dgeev\<close> that carry information into the call.\<close>

record dgeev_args =
  gv_JOBVL :: char
  gv_JOBVR :: char
  gv_N :: int
  gv_A :: "real option list"
  gv_LDA :: int
  gv_LDVL :: int
  gv_LDVR :: int
  gv_LWORK :: int

text \<open>
  What \<^verbatim>\<open>dgeev\<close> writes back: the real and imaginary parts of the eigenvalues, the
  first entry of the workspace (the optimal workspace size) and the status. A workspace
  query (\<open>LWORK = -1\<close>) leaves the matrix and the eigenvalue arrays as they are.
\<close>

record dgeev_result =
  gv_WR :: "real list"
  gv_WI :: "real list"
  gv_WORK1 :: real
  gv_INFO :: int

text \<open>The three loops that build the companion matrix \<open>C\<close>, in column-major order.\<close>

definition companion :: "real list \<Rightarrow> int \<Rightarrow> fault + real option list" where
  "companion c n =
     and_then (int_mul n n) (\<lambda>nn.
     and_then (new_vector nn (Some 0)) (\<lambda>C.
     and_then (for_loop 0 nn (\<lambda>i C. vec_set C i (Some 0)) C) (\<lambda>C.
     and_then (for_loop 1 n (\<lambda>i C. vec_set C (i + n * (i - 1)) (Some 1)) C) (\<lambda>C.
     for_loop 0 n (\<lambda>i C.
       and_then (vec_get c i) (\<lambda>ci.
       and_then (vec_get c n) (\<lambda>cn.
       vec_set C (i + n * (n - 1)) (ddiv (- ci) cn)))) C))))"

definition dgeev_call :: "int \<Rightarrow> real option list \<Rightarrow> int \<Rightarrow> dgeev_args" where
  "dgeev_call n C lwork =
     \<lparr>gv_JOBVL = CHR ''N'', gv_JOBVR = CHR ''N'', gv_N = n, gv_A = C, gv_LDA = n,
      gv_LDVL = 1, gv_LDVR = 1, gv_LWORK = lwork\<rparr>"

definition findPolyRoots ::
  "(dgeev_args \<Rightarrow> dgeev_result) \<Rightarrow> real list \<Rightarrow> int \<Rightarrow> real list \<Rightarrow> fault + real list" where
  "findPolyRoots dgeev c n r =
     and_then (companion c n) (\<lambda>C.
     and_then (new_vector n 0) (\<lambda>valI.
     let tmpwork = gv_WORK1 (dgeev (dgeev_call n C (- 1))) in
     and_then (double_to_int tmpwork) (\<lambda>LWORK.
     and_then (new_vector LWORK (0::real)) (\<lambda>work.
     let res = dgeev (dgeev_call n C LWORK) in
     and_then (write_out r (gv_WR res)) (\<lambda>r'.
     and_then (write_out valI (gv_WI res)) (\<lambda>valI'.
     Inr r'))))))"

text \<open>
  The wrapper \<^verbatim>\<open>SEXP findPolyRoots(SEXP cR)\<close>. \<^verbatim>\<open>NumericVector roots(n - 1)\<close> is filled
  with zeros; \<^verbatim>\<open>as<vector<double> >(roots)\<close> is a copy, and the wrapper returns \<open>roots\<close>.
\<close>

definition findPolyRoots_SEXP :: "(dgeev_args \<Rightarrow> dgeev_result) \<Rightarrow> real list \<Rightarrow> fault + real list" where
  "findPolyRoots_SEXP dgeev c =
     (let n = int (length c) in
      and_then (new_vector (n - 1) 0) (\<lambda>roots.
      let r = roots in
      and_then (findPolyRoots dgeev c (n - 1) r) (\<lambda>r'.
      Inr roots)))"

section \<open>hermitePolyCoef\<close>

text \<open>
  The workspace is a \<^verbatim>\<open>vector<long>\<close>, so every value of the recurrence is an integer,
  and the doubles in between are integers too. On integers binary64 arithmetic is exact
  arithmetic followed by rounding to 53 significant bits (to nearest, ties to even),
  which \<open>round_binary64\<close> writes out (an integer below \<open>2 ^ 53\<close> is a double); the values here stay far below the overflow
  threshold of binary64. A \<^verbatim>\<open>long\<close> has 64 bits.
\<close>

function bit_length :: "int \<Rightarrow> nat" where
  "bit_length a = (if a \<le> 0 then 0 else Suc (bit_length (a div 2)))"
  by pat_completeness auto
termination
  by (relation "measure nat") auto

definition round_binary64 :: "int \<Rightarrow> int" where
  "round_binary64 z =
     (if \<bar>z\<bar> < 2 ^ 53 then z
      else
        let a = \<bar>z\<bar>; e = bit_length a - 53; q = a div 2 ^ e; r = a mod 2 ^ e; h = 2 ^ (e - 1);
            q' = (if r < h then q else if h < r then q + 1 else if even q then q else q + 1)
        in sgn z * (q' * 2 ^ e))"

definition long_to_double :: "int \<Rightarrow> int" where
  "long_to_double v = round_binary64 v"

definition dmul :: "int \<Rightarrow> int \<Rightarrow> int" where
  "dmul a b = round_binary64 (a * b)"

definition dsub :: "int \<Rightarrow> int \<Rightarrow> int" where
  "dsub a b = round_binary64 (a - b)"

definition double_to_long :: "int \<Rightarrow> fault + int" where
  "double_to_long d = (if - (2 ^ 63) \<le> d \<and> d < 2 ^ 63 then Inr d else Inl ConversionRange)"

definition long_mul :: "int \<Rightarrow> int \<Rightarrow> fault + int" where
  "long_mul a b =
     (if - (2 ^ 63) \<le> a * b \<and> a * b < 2 ^ 63 then Inr (a * b) else Inl SignedOverflow)"

text \<open>
  The right-hand side of
  \<^verbatim>\<open>work[i + j * (n + 1)] = 2. * work[(i - 1) + (j - 1) * (n + 1)]
                             - 2. * (i - 1.) * work[(i - 2) + j * (n + 1)]\<close>
  on the two entries \<open>a\<close> and \<open>b\<close> it reads: both are converted to double, the arithmetic
  is binary64, and the result is converted to \<^verbatim>\<open>long\<close>.
\<close>

definition coef_value :: "int \<Rightarrow> int \<Rightarrow> int \<Rightarrow> fault + int" where
  "coef_value i a b =
     double_to_long
       (dsub (dmul 2 (long_to_double a)) (dmul (dmul 2 (dsub i 1)) (long_to_double b)))"

definition coef_entry :: "int \<Rightarrow> int \<Rightarrow> int \<Rightarrow> int list \<Rightarrow> fault + int list" where
  "coef_entry n i j work =
     and_then (vec_get work ((i - 1) + (j - 1) * (n + 1))) (\<lambda>a.
     and_then (vec_get work ((i - 2) + j * (n + 1))) (\<lambda>b.
     and_then (coef_value i a b) (\<lambda>v.
     vec_set work (i + j * (n + 1)) v)))"

text \<open>One pass of the outer loop: \<^verbatim>\<open>work[i] = -2 * (i - 1) * work[i - 2]\<close>, then the inner loop.\<close>

definition coef_row :: "int \<Rightarrow> int \<Rightarrow> int list \<Rightarrow> fault + int list" where
  "coef_row n i work =
     and_then (vec_get work (i - 2)) (\<lambda>a.
     and_then (long_mul (- 2 * (i - 1)) a) (\<lambda>v.
     and_then (vec_set work i v) (\<lambda>work.
     for_loop 1 (i + 1) (coef_entry n i) work)))"

definition hermitePolyCoef :: "int \<Rightarrow> real list \<Rightarrow> fault + real list" where
  "hermitePolyCoef n c =
     and_then (int_mul (n + 1) (n + 1)) (\<lambda>size.
     and_then (new_vector size 0) (\<lambda>work.
     and_then (for_loop 0 size (\<lambda>i work. vec_set work i 0) work) (\<lambda>work.
     if n = 0 then vec_set c 0 1
     else if n = 1 then and_then (vec_set c 0 0) (\<lambda>c. vec_set c 1 2)
     else
       and_then (vec_set work 0 1) (\<lambda>work.
       and_then (vec_set work 1 0) (\<lambda>work.
       and_then (vec_set work (1 + 1 * (n + 1)) 2) (\<lambda>work.
       and_then (for_loop 2 (n + 1) (coef_row n) work) (\<lambda>work.
       for_loop 0 (n + 1) (\<lambda>j c.
         and_then (vec_get work (n + j * (n + 1))) (\<lambda>v.
         vec_set c j (real_of_int (long_to_double v)))) c)))))))"

text \<open>The wrapper \<^verbatim>\<open>SEXP hermitePolyCoef(SEXP nR)\<close>, on the integer \<open>n\<close> it reads from \<open>nR\<close>.\<close>

definition hermitePolyCoef_SEXP :: "int \<Rightarrow> fault + real list" where
  "hermitePolyCoef_SEXP n =
     and_then (new_vector (n + 1) 0) (\<lambda>coef.
     let c = coef in
     and_then (hermitePolyCoef n c) (\<lambda>c'.
     Inr coef))"

section \<open>hermitePoly and evalHermitePoly\<close>

text \<open>
  The loop \<^verbatim>\<open>for (i = 2; i <= n; i++)\<close> of \<open>hermitePoly\<close> on the state \<open>(hnm2, hnm1, hn)\<close>.
  After the pass with \<open>i = n\<close> the counter is incremented once more, which overflows when
  \<open>n\<close> is the largest \<^verbatim>\<open>int\<close>.
\<close>

function hermitePoly_loop ::
  "real \<Rightarrow> int \<Rightarrow> int \<Rightarrow> real \<times> real \<times> real \<Rightarrow> fault + real \<times> real \<times> real" where
  "hermitePoly_loop x n i (hnm2, hnm1, hn) =
     (if i \<le> n then
        (let hn' = 2 * x * hnm1 - 2 * (of_int i - 1) * hnm2
         in if i + 1 < 2 ^ 31 then hermitePoly_loop x n (i + 1) (hnm1, hn', hn')
            else Inl SignedOverflow)
      else Inr (hnm2, hnm1, hn))"
  by pat_completeness auto
termination
  by (relation "measure (\<lambda>(x, n, i, s). nat (n + 1 - i))") auto

definition hermitePoly :: "real \<Rightarrow> int \<Rightarrow> fault + real" where
  "hermitePoly x n =
     (if n = 0 then Inr 1
      else if n = 1 then Inr (2 * x)
      else and_then (hermitePoly_loop x n 2 (1, 2 * x, 0)) (\<lambda>(hnm2, hnm1, hn). Inr hn))"

text \<open>
  \<^verbatim>\<open>NumericVector h(k)\<close> is filled with zeros; \<^verbatim>\<open>operator[]\<close> does not check its index.
  The counter \<open>i\<close> of the three loops is an \<^verbatim>\<open>int\<close>, compared with \<^verbatim>\<open>x.size()\<close> or
  \<^verbatim>\<open>n.size()\<close>.
\<close>

definition evalHermitePoly :: "real list \<Rightarrow> int list \<Rightarrow> fault + real list" where
  "evalHermitePoly x n =
     (if length n = length x then
        for_loop 0 (int (length x)) (\<lambda>i h.
          and_then (vec_get x i) (\<lambda>xi.
          and_then (vec_get n i) (\<lambda>ni.
          and_then (hermitePoly xi ni) (\<lambda>v.
          and_then (vec_set h i v) (counter_step i))))) (replicate (length x) 0)
      else if length x > length n then
        for_loop 0 (int (length x)) (\<lambda>i h.
          and_then (vec_get x i) (\<lambda>xi.
          and_then (vec_get n 0) (\<lambda>n0.
          and_then (hermitePoly xi n0) (\<lambda>v.
          and_then (vec_set h i v) (counter_step i))))) (replicate (length x) 0)
      else
        for_loop 0 (int (length n)) (\<lambda>i h.
          and_then (vec_get x 0) (\<lambda>x0.
          and_then (vec_get n i) (\<lambda>ni.
          and_then (hermitePoly x0 ni) (\<lambda>v.
          and_then (vec_set h i v) (counter_step i))))) (replicate (length n) 0))"

section \<open>gaussHermiteDataDirect\<close>

text \<open>
  \<^verbatim>\<open>lgamma\<close> of the C library at a positive integer \<open>k\<close>: the logarithm of \<open>(k - 1)!\<close>.
  \<^verbatim>\<open>log\<close> at zero is minus infinity, and \<^verbatim>\<open>exp\<close> of a non-finite value is not finite.
\<close>

definition lgamma :: "int \<Rightarrow> real" where
  "lgamma k = ln (fact (nat (k - 1)))"

definition dlog :: "real \<Rightarrow> real option" where
  "dlog y = (if y = 0 then None else Some (ln y))"

text \<open>The log-weight, from the order \<open>n\<close> and the value \<open>h\<close> of \<^verbatim>\<open>hermitePoly((*x)[i], n - 1)\<close>.\<close>

definition log_weight :: "int \<Rightarrow> real \<Rightarrow> real option" where
  "log_weight n h =
     map_option (\<lambda>l. (of_int n - 1) * ln 2 + lgamma (n + 1) + 0.5 * ln pi - 2 * ln (of_int n) - 2 * l)
       (dlog \<bar>h\<bar>)"

definition gaussHermiteDataDirect ::
  "(dgeev_args \<Rightarrow> dgeev_result) \<Rightarrow> int \<Rightarrow> real list \<Rightarrow> real option list
     \<Rightarrow> fault + (int \<times> real list \<times> real option list)" where
  "gaussHermiteDataDirect dgeev n x w =
     and_then (new_vector (n + 1) 0) (\<lambda>coef.
     and_then (hermitePolyCoef n coef) (\<lambda>coef.
     and_then (findPolyRoots dgeev coef n x) (\<lambda>x'.
     and_then (for_loop 0 n (\<lambda>i w.
         and_then (vec_get x' i) (\<lambda>xi.
         and_then (hermitePoly xi (n - 1)) (\<lambda>h.
         and_then (vec_set w i (log_weight n h)) (\<lambda>w.
         and_then (vec_get w i) (\<lambda>wi.
         vec_set w i (map_option exp wi)))))) w) (\<lambda>w'.
     Inr (0, x', w')))))"

section \<open>The rule of the specification\<close>

text \<open>
  The Golub-Welsch rule as the specification words it: each eigenpair gives a candidate
  pair of the eigenvalue and \<open>mu0\<close> times the squared first entry of the eigenvector; the
  pairs whose weight is below the square root of the machine epsilon are discarded, and
  the others are kept in the order of the solver.
\<close>

definition spec_candidate_pairs :: "int \<Rightarrow> real \<Rightarrow> dstevx_result \<Rightarrow> (real \<times> real) list" where
  "spec_candidate_pairs n mu0 r =
     map (\<lambda>i. (stx_W r ! i, mu0 * (stx_Z r ! (i * nat n))\<^sup>2)) [0..<stx_M r]"

definition spec_retained_pairs :: "int \<Rightarrow> real \<Rightarrow> dstevx_result \<Rightarrow> (real \<times> real) list" where
  "spec_retained_pairs n mu0 r =
     filter (\<lambda>p. \<not> snd p < sqrt DBL_EPSILON) (spec_candidate_pairs n mu0 r)"

text \<open>
  The companion matrix as the specification words it: ones on the subdiagonal, the last
  column \<open>- c[i] / c[n]\<close>, zero elsewhere; \<open>i\<close> is the row and \<open>j\<close> the column. In
  column-major order the entry \<open>(i, j)\<close> of an \<open>n \<times> n\<close> matrix is at \<open>i + n * j\<close>.
\<close>

definition spec_companion_entry :: "real list \<Rightarrow> nat \<Rightarrow> nat \<Rightarrow> nat \<Rightarrow> real" where
  "spec_companion_entry c n i j =
     (if j = n - 1 then - (c ! i) / c ! n else if i = j + 1 then 1 else 0)"

definition spec_companion :: "real list \<Rightarrow> nat \<Rightarrow> real option list" where
  "spec_companion c n =
     map (\<lambda>k. Some (spec_companion_entry c n (k mod n) (k div n))) [0..<n * n]"

text \<open>
  The sizes \<^verbatim>\<open>dgeev\<close> documents for a matrix of order \<open>n\<close>: \<open>n\<close> real and \<open>n\<close> imaginary
  parts, and an optimal workspace size that an \<^verbatim>\<open>int\<close> holds.
\<close>

definition dgeev_sizes :: "(dgeev_args \<Rightarrow> dgeev_result) \<Rightarrow> int \<Rightarrow> bool" where
  "dgeev_sizes dgeev n \<longleftrightarrow>
     (\<forall>a. gv_N a = n \<longrightarrow>
        length (gv_WR (dgeev a)) = nat n \<and> length (gv_WI (dgeev a)) = nat n
        \<and> 0 \<le> gv_WORK1 (dgeev a) \<and> gv_WORK1 (dgeev a) < 2 ^ 31)"

section \<open>The evaluation recurrence of the specification\<close>

text \<open>
  The value \<open>H\<^sub>n(x)\<close> as the specification words it: \<open>H\<^sub>0 = 1\<close>, \<open>H\<^sub>1 = 2 x\<close> and
  \<open>H\<^sub>i = 2 x H\<^bsub>i-1\<^esub> - 2 (i - 1) H\<^bsub>i-2\<^esub>\<close>.
\<close>

fun hermite_H :: "real \<Rightarrow> nat \<Rightarrow> real" where
  "hermite_H x 0 = 1"
| "hermite_H x (Suc 0) = 2 * x"
| "hermite_H x (Suc (Suc k)) = 2 * x * hermite_H x (Suc k) - 2 * (real k + 1) * hermite_H x k"

section \<open>The coefficient recurrence of the specification\<close>

text \<open>
  The coefficient of \<open>x\<^sup>j\<close> in \<open>H\<^sub>i\<close> as the specification words it, in exact integers:
  \<open>H\<^sub>0 = [1]\<close>, \<open>H\<^sub>1 = [0, 2]\<close>, and for \<open>i \<ge> 2\<close>
  \<open>work[i][0] = -2 (i - 1) work[i - 2][0]\<close> and
  \<open>work[i][j] = 2 work[i - 1][j - 1] - 2 (i - 1) work[i - 2][j]\<close>.
\<close>

fun hermite_coef :: "nat \<Rightarrow> nat \<Rightarrow> int" where
  "hermite_coef 0 j = (if j = 0 then 1 else 0)"
| "hermite_coef (Suc 0) j = (if j = 1 then 2 else 0)"
| "hermite_coef (Suc (Suc i)) 0 = - 2 * (int i + 1) * hermite_coef i 0"
| "hermite_coef (Suc (Suc i)) (Suc j) =
     2 * hermite_coef (Suc i) j - 2 * (int i + 1) * hermite_coef i (Suc j)"

definition hermite_row :: "nat \<Rightarrow> int list" where
  "hermite_row i = map (hermite_coef i) [0..<i + 1]"

text \<open>
  The state of the workspace of \<open>hermitePolyCoef\<close> with stride \<open>N\<close>, when the rows
  below \<open>i\<close> and the first \<open>j\<close> entries of row \<open>i\<close> hold the exact coefficients and every
  other entry is still zero.
\<close>

definition filled :: "nat \<Rightarrow> nat \<Rightarrow> nat \<Rightarrow> int list \<Rightarrow> bool" where
  "filled N i j work \<longleftrightarrow>
     length work = N * N
     \<and> (\<forall>r < N. \<forall>k < N.
          work ! (r + k * N) = (if r < i \<or> (r = i \<and> k < j) then hermite_coef r k else 0))"

text \<open>
  Row \<open>i\<close> from the rows \<open>i - 2\<close> and \<open>i - 1\<close> in exact integers, and the check that the
  machine arithmetic of \<open>hermitePolyCoef\<close> gives these very values on row \<open>i\<close>: the
  \<^verbatim>\<open>long\<close> product for the first entry, the binary64 expression for every other entry,
  and the conversion of the entry to double at the end.
\<close>

definition next_entry :: "nat \<Rightarrow> int list \<Rightarrow> int list \<Rightarrow> nat \<Rightarrow> int" where
  "next_entry i p2 p1 j =
     (if j = 0 then - 2 * (int i - 1) * p2 ! 0
      else 2 * p1 ! (j - 1) - 2 * (int i - 1) * (if j < length p2 then p2 ! j else 0))"

definition next_row :: "nat \<Rightarrow> int list \<Rightarrow> int list \<Rightarrow> int list" where
  "next_row i p2 p1 = map (next_entry i p2 p1) [0..<i + 1]"

definition entry_check :: "nat \<Rightarrow> int list \<Rightarrow> int list \<Rightarrow> nat \<Rightarrow> bool" where
  "entry_check i p2 p1 j \<longleftrightarrow>
     (if j = 0 then long_mul (- 2 * (int i - 1)) (p2 ! 0)
      else coef_value (int i) (p1 ! (j - 1)) (if j < length p2 then p2 ! j else 0))
       = Inr (next_entry i p2 p1 j)
     \<and> long_to_double (next_entry i p2 p1 j) = next_entry i p2 p1 j"

definition row_check :: "nat \<Rightarrow> int list \<Rightarrow> int list \<Rightarrow> bool" where
  "row_check i p2 p1 \<longleftrightarrow> list_all (entry_check i p2 p1) [0..<i + 1]"

text \<open>
  The rows \<open>k\<close> and \<open>k + 1\<close>, when the machine arithmetic is exact up to row \<open>k + 1\<close>;
  \<open>exact_step i\<close> goes from the rows \<open>i - 2\<close> and \<open>i - 1\<close> to the rows \<open>i - 1\<close> and \<open>i\<close>.
\<close>

fun exact_step :: "nat \<Rightarrow> (int list \<times> int list) option \<Rightarrow> (int list \<times> int list) option" where
  "exact_step i None = None"
| "exact_step i (Some (p2, p1)) =
     (if row_check i p2 p1 then Some (p1, next_row i p2 p1) else None)"

fun exact_rows :: "nat \<Rightarrow> (int list \<times> int list) option" where
  "exact_rows 0 = Some ([1], [0, 2])"
| "exact_rows (Suc k) = exact_step (k + 2) (exact_rows k)"

text \<open>The coefficients of \<open>H\<^sub>2\<^sub>4\<close> and of \<open>H\<^sub>2\<^sub>5\<close>, from the constant term upwards.\<close>

definition coef_24 :: "int list" where
  "coef_24 =
     [1295295050649600, 0, - 31087081215590400, 0, 113985964457164800, 0,
      - 151981285942886400, 0, 97702255248998400, 0, - 34738579644088320, 0,
      7368789621473280, 0, - 971708521512960, 0, 80975710126080, 0, - 4234024058880, 0,
      133706022912, 0, - 2315255808, 0, 16777216]"

definition coef_25 :: "int list" where
  "coef_25 =
     [0, 64764752532480000, 0, - 518118020259840000, 0, 1139859644571648000, 0,
      - 1085580613877760000, 0, 542790306938880000, 0, - 157902634745856000, 0,
      28341498544128000, 0, - 3239028405043200, 0, 238163853312000, 0, - 11142168576000, 0,
      318347673600, 0, - 5033164800, 0, 33554432]"

section \<open>Loops and vectors\<close>

declare for_loop.simps [simp del]

declare bit_length.simps [simp del]

declare hermitePoly_loop.simps [simp del]

lemma and_then_Inr [simp]: "and_then (Inr v) f = f v"
  by (simp add: and_then_def)

lemma and_then_Inl [simp]: "and_then (Inl e) f = Inl e"
  by (simp add: and_then_def)

lemma upt_2: "[0..<2] = [0, 1]"
  by (simp add: upt_rec)

lemma upt_3: "[0..<3] = [0, 1, 2]"
  by (simp add: upt_rec)

lemma replicate_2: "replicate 2 a = [a, a]"
  by (simp add: numeral_2_eq_2)

lemma replicate_3: "replicate 3 a = [a, a, a]"
  by (simp add: numeral_3_eq_3)

lemma for_loop_done: "hi \<le> i \<Longrightarrow> for_loop i hi body s = Inr s"
  by (simp add: for_loop.simps)

lemma for_loop_step: "i < hi \<Longrightarrow> for_loop i hi body s = and_then (body i s) (for_loop (i + 1) hi body)"
  by (subst for_loop.simps) (simp add: and_then_def)

lemma for_loop_invariant:
  assumes "lo \<le> hi" and "P lo s"
    and "\<And>i t. lo \<le> i \<Longrightarrow> i < hi \<Longrightarrow> P i t \<Longrightarrow> \<exists>t'. body i t = Inr t' \<and> P (i + 1) t'"
  shows "\<exists>s'. for_loop lo hi body s = Inr s' \<and> P hi s'"
  using assms
proof (induction "nat (hi - lo)" arbitrary: lo s)
  case 0
  then have "lo = hi" by simp
  with 0 show ?case by (simp add: for_loop_done)
next
  case (Suc k)
  then have lt: "lo < hi" by simp
  from Suc.prems(3)[OF _ lt Suc.prems(2)] obtain t where t: "body lo s = Inr t" "P (lo + 1) t"
    by auto
  have "\<exists>s'. for_loop (lo + 1) hi body t = Inr s' \<and> P hi s'"
  proof (rule Suc.hyps(1))
    show "k = nat (hi - (lo + 1))" using Suc.hyps(2) by simp
    show "lo + 1 \<le> hi" using lt by simp
    show "P (lo + 1) t" by fact
    show "\<And>i t. lo + 1 \<le> i \<Longrightarrow> i < hi \<Longrightarrow> P i t \<Longrightarrow> \<exists>t'. body i t = Inr t' \<and> P (i + 1) t'"
      using Suc.prems(3) by simp
  qed
  then show ?case using lt t by (simp add: for_loop_step)
qed

lemma for_loop_split:
  "lo \<le> k \<Longrightarrow> k \<le> hi \<Longrightarrow> for_loop lo hi body s = and_then (for_loop lo k body s) (for_loop k hi body)"
proof (induction "nat (k - lo)" arbitrary: lo s)
  case 0
  then show ?case by (simp add: for_loop_done)
next
  case (Suc m)
  then have lt: "lo < k" "lo < hi" by simp_all
  show ?case
  proof (cases "body lo s")
    case (Inl e)
    with lt show ?thesis by (simp add: for_loop_step)
  next
    case (Inr t)
    have "for_loop (lo + 1) hi body t = and_then (for_loop (lo + 1) k body t) (for_loop k hi body)"
      by (rule Suc.hyps(1)) (use Suc in simp_all)
    with lt Inr show ?thesis by (simp add: for_loop_step)
  qed
qed

lemma for_loop_tabulate:
  assumes "0 \<le> n" and "nat n \<le> length v"
  shows "for_loop 0 n (\<lambda>i v. vec_set v i (f i)) v = Inr (map (\<lambda>k. f (int k)) [0..<nat n] @ drop (nat n) v)"
proof -
  let ?P = "\<lambda>i t. t = map (\<lambda>k. f (int k)) [0..<nat i] @ drop (nat i) v"
  have "\<exists>s'. for_loop 0 n (\<lambda>i v. vec_set v i (f i)) v = Inr s' \<and> ?P n s'"
  proof (rule for_loop_invariant)
    show "0 \<le> n" by fact
    show "?P 0 v" by simp
    fix i t assume i: "0 \<le> i" "i < n" and t: "?P i t"
    have len: "length t = length v" using t i assms by simp
    have "t[nat i := f i] = map (\<lambda>k. f (int k)) [0..<nat (i + 1)] @ drop (nat (i + 1)) v"
      using i assms t
      by (simp add: nat_add_distrib list_update_append Cons_nth_drop_Suc[symmetric] upd_conv_take_nth_drop drop_Suc)
    then show "\<exists>t'. vec_set t i (f i) = Inr t' \<and> ?P (i + 1) t'"
      using i assms len by (simp add: vec_set_def)
  qed
  then show ?thesis by auto
qed


lemma vec_get_nat: "k < length v \<Longrightarrow> vec_get v (int k) = Inr (v ! k)"
  by (simp add: vec_get_def)

lemma vec_set_nat: "k < length v \<Longrightarrow> vec_set v (int k) a = Inr (v[k := a])"
  by (simp add: vec_set_def)

lemma take_Suc_update:
  "k < length xs \<Longrightarrow> take (Suc k) (xs[k := a]) = take k xs @ [a]"
  by (simp add: take_Suc_conv_app_nth)

lemma for_loop_cong:
  assumes "\<And>i t. lo \<le> i \<Longrightarrow> i < hi \<Longrightarrow> body i t = body' i t"
  shows "for_loop lo hi body s = for_loop lo hi body' s"
  using assms
proof (induction "nat (hi - lo)" arbitrary: lo s)
  case 0
  then show ?case by (simp add: for_loop_done)
next
  case (Suc k)
  then have lt: "lo < hi" by simp
  have b: "body lo s = body' lo s" using Suc.prems[of lo s] lt by simp
  show ?case
  proof (cases "body' lo s")
    case (Inl e)
    with lt b show ?thesis by (simp add: for_loop_step)
  next
    case (Inr t)
    have "for_loop (lo + 1) hi body t = for_loop (lo + 1) hi body' t"
      by (rule Suc.hyps(1)) (use Suc in simp_all)
    with lt b Inr show ?thesis by (simp add: for_loop_step)
  qed
qed

lemma for_loop_fill:
  assumes "\<And>i h. 0 \<le> i \<Longrightarrow> i < int m \<Longrightarrow> body i h = vec_set h i (g (nat i))"
  shows "for_loop 0 (int m) body (replicate m z) = Inr (map g [0..<m])"
proof -
  have "for_loop 0 (int m) body (replicate m z) =
      for_loop 0 (int m) (\<lambda>i h. vec_set h i (g (nat i))) (replicate m z)"
    by (rule for_loop_cong) (rule assms)
  also have "\<dots> = Inr (map (\<lambda>k. g (nat (int k))) [0..<nat (int m)] @ drop (nat (int m)) (replicate m z))"
    by (rule for_loop_tabulate) simp_all
  finally show ?thesis by simp
qed

lemma for_loop_first_fault:
  "lo < hi \<Longrightarrow> body lo s = Inl e \<Longrightarrow> for_loop lo hi body s = Inl e"
  by (simp add: for_loop_step)

section \<open>The Golub-Welsch engine\<close>

lemma buildHermiteJacobi_eq:
  assumes "0 \<le> n" and "nat n \<le> length D" and "nat n - 1 \<le> length E"
  shows "buildHermiteJacobi n D E =
    Inr (replicate (nat n) 0 @ drop (nat n) D,
         map (\<lambda>k. sqrt ((real k + 1) / 2)) [0..<nat n - 1] @ drop (nat n - 1) E)"
proof (cases "n = 0")
  case True
  then show ?thesis
    by (simp add: buildHermiteJacobi_def for_loop_done)
next
  case False
  with assms have n: "0 \<le> n - 1" "nat (n - 1) = nat n - 1" "nat (n - 1) \<le> length E" by simp_all
  show ?thesis
    unfolding buildHermiteJacobi_def
    by (simp add: for_loop_tabulate[OF assms(1,2)] for_loop_tabulate[OF n(1,3)] n(2) map_replicate_const)
qed

lemma hermite_jacobi_eq:
  assumes "0 < n"
  shows "hermite_jacobi n =
    Inr (replicate (nat n) 0, map (\<lambda>k. sqrt ((real k + 1) / 2)) [0..<nat n - 1] @ [0])"
proof -
  have "drop (nat n - 1) (replicate (nat n) (0::real)) = [0]"
    using assms by (simp add: Suc_diff_le)
  then show ?thesis
    using assms by (simp add: hermite_jacobi_def new_vector_def buildHermiteJacobi_eq)
qed

text \<open>
  Claim C8, as amended. For every positive order \<open>n\<close> the engine builds a diagonal \<open>D\<close>
  of \<open>n\<close> zeros and an off-diagonal vector \<open>E\<close> of length \<open>n\<close>, not \<open>n - 1\<close>:
  \<open>E[i] = sqrt ((i + 1) / 2)\<close> for \<open>i = 0..n-2\<close>, and the last entry \<open>E[n-1]\<close> is the zero
  of the allocation. These are the vectors \<open>quadInfoGolubWelsch\<close> receives, and it passes
  them to the eigensolver in \<open>dstevx_call\<close>.
\<close>

theorem hermite_jacobi_matrix:
  assumes "0 < n"
  shows "hermite_jacobi n =
      Inr (replicate (nat n) 0, map (\<lambda>k. sqrt ((real k + 1) / 2)) [0..<nat n - 1] @ [0])
    \<and> gaussHermiteDataGolubWelsch dstevx p n x w =
      and_then (quadInfoGolubWelsch dstevx p n (replicate (nat n) 0)
                  (map (\<lambda>k. sqrt ((real k + 1) / 2)) [0..<nat n - 1] @ [0]) (sqrt pi) x w)
               (\<lambda>(x', w'). Inr (0, x', w'))"
  using assms by (simp add: gaussHermiteDataGolubWelsch_def hermite_jacobi_eq)

theorem hermite_jacobi_matrix_witness:
  "hermite_jacobi 3 = Inr ([0, 0, 0], [sqrt (1 / 2), 1, 0])"
  using hermite_jacobi_matrix[of 3] by (simp add: upt_2 replicate_3)

text \<open>
  Claim C8 as stated fails: at \<open>n = 2\<close> the off-diagonal vector has two entries, and
  the claim asks for \<open>max (n - 1) 0 = 1\<close>.
\<close>

theorem hermite_jacobi_counterexample:
  "hermite_jacobi 2 = Inr ([0, 0], [sqrt (1 / 2), 0])
   \<and> length (snd (projr (hermite_jacobi 2))) \<noteq> nat (max (2 - 1) 0)"
  using hermite_jacobi_eq[of 2] by (simp add: replicate_2)


lemma quadInfo_prune_eq:
  fixes W Z :: "real list"
  assumes n: "0 < n"
    and W: "M \<le> length W"
    and Z: "M * nat n \<le> length Z" "length Z < 2 ^ 32"
  shows "quadInfo_prune n mu0 M W Z x w =
    Inr (map (\<lambda>i. W ! i) (filter (\<lambda>i. \<not> mu0 * (Z ! (i * nat n))\<^sup>2 < sqrt DBL_EPSILON) [0..<M]),
         map (\<lambda>i. mu0 * (Z ! (i * nat n))\<^sup>2) (filter (\<lambda>i. \<not> mu0 * (Z ! (i * nat n))\<^sup>2 < sqrt DBL_EPSILON) [0..<M]))"
proof -
  let ?c = "\<lambda>i. mu0 * (Z ! (i * nat n))\<^sup>2"
  let ?keep = "\<lambda>i. \<not> ?c i < sqrt DBL_EPSILON"
  let ?K = "\<lambda>i. filter ?keep [0..<nat i]"
  let ?P = "\<lambda>i s. case s of (x', w', k) \<Rightarrow>
      length x' = M \<and> length w' = M \<and> k = int (length (?K i))
      \<and> take (length (?K i)) x' = map (\<lambda>i. W ! i) (?K i)
      \<and> take (length (?K i)) w' = map ?c (?K i)"
  have "\<exists>s'. for_loop 0 (int M) (prune_step n mu0 W Z) (resize x M, resize w M, 0) = Inr s' \<and> ?P (int M) s'"
  proof (rule for_loop_invariant)
    show "0 \<le> int M" by simp
    show "?P 0 (resize x M, resize w M, 0)" by (auto simp add: resize_def)
  next
    fix i t
    assume i: "0 \<le> i" "i < int M" and P: "?P i t"
    obtain x' w' k where t: "t = (x', w', k)" by (cases t)
    from i have iM: "nat i < M" by simp
    have "nat i * nat n < M * nat n" using iM n by simp
    then have idx: "nat i * nat n < length Z" using Z(1) by (rule order.strict_trans2)
    have in_eq: "i * n = int (nat i * nat n)" using i n by (simp add: nat_mult_distrib)
    have "nat i * nat n < 2 ^ 32" using idx Z(2) by (rule less_trans)
    then have "int (nat i * nat n) < int (2 ^ 32)" by (simp only: of_nat_less_iff)
    then have "int (nat i * nat n) < 2 ^ 32" by simp
    then have md: "(i * n) mod 2 ^ 32 = int (nat i * nat n)"
      unfolding in_eq by simp
    have get: "vec_get Z ((i * n) mod 2 ^ 32) = Inr (Z ! (nat i * nat n))"
      unfolding md using idx by (rule vec_get_nat)
    have get': "vec_get Z (i * n mod 4294967296) = Inr (Z ! (nat i * nat n))"
      using get by simp
    have Ksuc: "?K (i + 1) = ?K i @ (if ?keep (nat i) then [nat i] else [])"
      using i by (simp add: nat_add_distrib)
    have klen: "length (?K i) \<le> nat i"
      using length_filter_le[of ?keep "[0..<nat i]"] by simp
    from P t have inv: "length x' = M" "length w' = M" "k = int (length (?K i))"
      "take (length (?K i)) x' = map (\<lambda>i. W ! i) (?K i)"
      "take (length (?K i)) w' = map ?c (?K i)" by simp_all
    show "\<exists>t'. prune_step n mu0 W Z i t = Inr t' \<and> ?P (i + 1) t'"
    proof (cases "?keep (nat i)")
      case False
      then have "prune_step n mu0 W Z i t = Inr t"
        by (simp add: prune_step_def t get' power2_eq_square mult.assoc)
      moreover have "?P (i + 1) t"
        using P False unfolding Ksuc t by simp
      ultimately show ?thesis by blast
    next
      case True
      have kM: "length (?K i) < M" using klen iM by linarith
      have getW: "vec_get W i = Inr (W ! nat i)"
        using i iM W by (simp add: vec_get_def)
      have setx: "vec_set x' k a = Inr (x'[length (?K i) := a])" for a
        unfolding inv(3) using kM inv(1) by (simp add: vec_set_nat)
      have setw: "vec_set w' k a = Inr (w'[length (?K i) := a])" for a
        unfolding inv(3) using kM inv(2) by (simp add: vec_set_nat)
      have step: "prune_step n mu0 W Z i t =
          Inr (x'[length (?K i) := W ! nat i], w'[length (?K i) := ?c (nat i)], k + 1)"
        using True
        by (simp add: prune_step_def t get' getW setx setw power2_eq_square mult.assoc)
      have "?P (i + 1) (x'[length (?K i) := W ! nat i], w'[length (?K i) := ?c (nat i)], k + 1)"
        unfolding Ksuc using True kM inv
        by (simp add: take_Suc_update)
      with step show ?thesis by blast
    qed
  qed
  then obtain s' where
    loop0: "for_loop 0 (int M) (prune_step n mu0 W Z) (resize x M, resize w M, 0) = Inr s'"
    and P0: "?P (int M) s'"
    by blast
  obtain x' w' k where s': "s' = (x', w', k)" by (cases s')
  note loop = loop0[unfolded s'] and P = P0[unfolded s']
  from P have lens: "length (filter ?keep [0..<M]) \<le> length x'" "length (filter ?keep [0..<M]) \<le> length w'"
    using length_filter_le[of ?keep "[0..<M]"] by simp_all
  from P have eqs: "nat k = length (filter ?keep [0..<M])"
    "take (length (filter ?keep [0..<M])) x' = map (\<lambda>i. W ! i) (filter ?keep [0..<M])"
    "take (length (filter ?keep [0..<M])) w' = map ?c (filter ?keep [0..<M])"
    by simp_all
  show ?thesis
    unfolding quadInfo_prune_def loop
    using lens by (simp add: resize_def eqs)
qed


lemma Z_size_less: "Z_size predicted n < 2 ^ 32"
proof -
  have "(int (Mmax_of predicted) * n) mod 2 ^ 32 < 2 ^ 32" by simp
  then have "nat ((int (Mmax_of predicted) * n) mod 2 ^ 32) < nat (2 ^ 32)"
    by (subst nat_mono_iff) simp_all
  then show ?thesis unfolding Z_size_def by simp
qed

lemma spec_retained_pairs_eq:
  "spec_retained_pairs n mu0 r =
     map (\<lambda>i. (stx_W r ! i, mu0 * (stx_Z r ! (i * nat n))\<^sup>2))
       (filter (\<lambda>i. \<not> mu0 * (stx_Z r ! (i * nat n))\<^sup>2 < sqrt DBL_EPSILON) [0..<stx_M r])"
  by (simp add: spec_retained_pairs_def spec_candidate_pairs_def filter_map comp_def)

lemma quadInfoGolubWelsch_eq:
  assumes n: "0 < n" and n5: "5 * n < 2 ^ 31"
    and r: "r = dstevx (dstevx_call n D E)"
    and M: "stx_M r \<le> nat n"
    and lW: "length (stx_W r) = stx_M r"
    and lZ: "length (stx_Z r) = stx_M r * nat n"
    and cap: "stx_M r * nat n \<le> Z_size predicted n"
  shows "quadInfoGolubWelsch dstevx predicted n D E mu0 x w =
    Inr (map fst (spec_retained_pairs n mu0 r), map snd (spec_retained_pairs n mu0 r))"
proof -
  let ?M = "stx_M r"
  let ?W = "stx_W r @ replicate (nat n - length (stx_W r)) (0::real)"
  let ?Z = "stx_Z r @ replicate (Z_size predicted n - length (stx_Z r)) (0::real)"
  have wW: "write_out (replicate (nat n) 0) (stx_W r) = Inr ?W"
    using M lW by (simp add: write_out_def)
  have wZ: "write_out (replicate (Z_size predicted n) 0) (stx_Z r) = Inr ?Z"
    using cap lZ by (simp add: write_out_def)
  have lenZ: "length ?Z = Z_size predicted n" using cap lZ by simp
  have Zi: "?Z ! (i * nat n) = stx_Z r ! (i * nat n)" if "i < ?M" for i
  proof -
    have "i * nat n < ?M * nat n" using that n by simp
    then show ?thesis by (simp add: nth_append lZ)
  qed
  have Wi: "?W ! i = stx_W r ! i" if "i < ?M" for i
    using that by (simp add: nth_append lW)
  have keep: "filter (\<lambda>i. \<not> mu0 * (?Z ! (i * nat n))\<^sup>2 < sqrt DBL_EPSILON) [0..<?M]
      = filter (\<lambda>i. \<not> mu0 * (stx_Z r ! (i * nat n))\<^sup>2 < sqrt DBL_EPSILON) [0..<?M]"
    by (rule filter_cong) (simp_all add: Zi)
  have prune: "quadInfo_prune n mu0 ?M ?W ?Z x w =
      Inr (map (\<lambda>i. ?W ! i) (filter (\<lambda>i. \<not> mu0 * (?Z ! (i * nat n))\<^sup>2 < sqrt DBL_EPSILON) [0..<?M]),
           map (\<lambda>i. mu0 * (?Z ! (i * nat n))\<^sup>2) (filter (\<lambda>i. \<not> mu0 * (?Z ! (i * nat n))\<^sup>2 < sqrt DBL_EPSILON) [0..<?M]))"
  proof (rule quadInfo_prune_eq[OF n])
    show "?M \<le> length ?W" using M lW by simp
    show "?M * nat n \<le> length ?Z" unfolding lenZ by (rule cap)
    show "length ?Z < 2 ^ 32" unfolding lenZ by (rule Z_size_less)
  qed
  have m1: "map (\<lambda>i. ?W ! i) (filter (\<lambda>i. \<not> mu0 * (stx_Z r ! (i * nat n))\<^sup>2 < sqrt DBL_EPSILON) [0..<?M])
      = map fst (spec_retained_pairs n mu0 r)"
    unfolding spec_retained_pairs_eq by (simp add: comp_def Wi)
  have m2: "map (\<lambda>i. mu0 * (?Z ! (i * nat n))\<^sup>2) (filter (\<lambda>i. \<not> mu0 * (stx_Z r ! (i * nat n))\<^sup>2 < sqrt DBL_EPSILON) [0..<?M])
      = map snd (spec_retained_pairs n mu0 r)"
    unfolding spec_retained_pairs_eq by (simp add: comp_def Zi)
  have "int_mul 5 n = Inr (5 * n)"
    using n n5 by (simp add: int_mul_def)
  then have "quadInfoGolubWelsch dstevx predicted n D E mu0 x w = quadInfo_prune n mu0 ?M ?W ?Z x w"
    using n unfolding quadInfoGolubWelsch_def r[symmetric] Let_def
    by (simp add: new_vector_def wW wZ)
  then show ?thesis
    unfolding prune keep m1 m2 .
qed


lemma sqrt_DBL_EPSILON: "sqrt DBL_EPSILON = 1 / 2 ^ 26"
proof -
  have "(1 / 2 ^ 26)\<^sup>2 = DBL_EPSILON" by (simp add: DBL_EPSILON_def power2_eq_square)
  then show ?thesis by (rule real_sqrt_unique) simp
qed

text \<open>
  Claim C1, as amended. Let \<open>n\<close> be a positive order with \<open>5 n\<close> in the range of \<^verbatim>\<open>int\<close>,
  and let \<open>r\<close> be what \<^verbatim>\<open>dstevx\<close> writes back for the request of the engine (eigenvalues
  and eigenvectors of the matrix of order \<open>n\<close>, in the interval from \<open>- 4\<close> to \<open>4\<close>):
  \<open>M \<le> n\<close> eigenvalues and \<open>M\<close> eigenvectors of \<open>n\<close> entries, which fit the storage the
  engine has allocated for \<open>Z\<close>. Then \<open>gaussHermiteDataGolubWelsch\<close> returns the status 0
  with the nodes and weights of the retained pairs of the specification: node and weight
  sequences of the same length, at most \<open>n\<close>; every weight is \<open>sqrt pi\<close> times the squared
  first entry of its eigenvector and at least \<open>sqrt DBL_EPSILON\<close>; every candidate pair
  with a weight below \<open>sqrt DBL_EPSILON\<close> is discarded; the order is the solver's.
\<close>

theorem golub_welsch_rule:
  assumes "0 < n" and "5 * n < 2 ^ 31"
    and "r = dstevx
      \<lparr>stx_JOBZ = CHR ''V'', stx_RANGE = CHR ''V'', stx_N = n, stx_D = replicate (nat n) 0,
       stx_E = map (\<lambda>k. sqrt ((real k + 1) / 2)) [0..<nat n - 1] @ [0],
       stx_VL = - 4, stx_VU = 4, stx_IL = 0, stx_IU = 1, stx_ABSTOL = sqrt DBL_EPSILON,
       stx_LDZ = n\<rparr>"
    and "stx_M r \<le> nat n"
    and "length (stx_W r) = stx_M r"
    and "length (stx_Z r) = stx_M r * nat n"
    and "stx_M r * nat n \<le> Z_size predicted n"
  shows "gaussHermiteDataGolubWelsch dstevx predicted n x w =
      Inr (0, map fst (spec_retained_pairs n (sqrt pi) r), map snd (spec_retained_pairs n (sqrt pi) r))
    \<and> spec_retained_pairs n (sqrt pi) r
        = filter (\<lambda>p. \<not> snd p < sqrt DBL_EPSILON)
            (map (\<lambda>i. (stx_W r ! i, sqrt pi * (stx_Z r ! (i * nat n))\<^sup>2)) [0..<stx_M r])
    \<and> length (map fst (spec_retained_pairs n (sqrt pi) r))
        = length (map snd (spec_retained_pairs n (sqrt pi) r))
    \<and> length (spec_retained_pairs n (sqrt pi) r) \<le> nat n
    \<and> (\<forall>p \<in> set (spec_retained_pairs n (sqrt pi) r). sqrt DBL_EPSILON \<le> snd p)
    \<and> (\<forall>p \<in> set (spec_candidate_pairs n (sqrt pi) r).
          snd p < sqrt DBL_EPSILON \<longrightarrow> p \<notin> set (spec_retained_pairs n (sqrt pi) r))"
proof -
  let ?D = "replicate (nat n) (0::real)"
  let ?E = "map (\<lambda>k. sqrt ((real k + 1) / 2)) [0..<nat n - 1] @ [0]"
  have J: "hermite_jacobi n = Inr (?D, ?E)"
    by (rule hermite_jacobi_eq[OF assms(1)])
  have r: "r = dstevx (dstevx_call n ?D ?E)"
    unfolding dstevx_call_def by (rule assms(3))
  have "quadInfoGolubWelsch dstevx predicted n ?D ?E (sqrt pi) x w =
      Inr (map fst (spec_retained_pairs n (sqrt pi) r), map snd (spec_retained_pairs n (sqrt pi) r))"
    by (rule quadInfoGolubWelsch_eq[where r = r and dstevx = dstevx]) (fact assms r)+
  then have run: "gaussHermiteDataGolubWelsch dstevx predicted n x w =
      Inr (0, map fst (spec_retained_pairs n (sqrt pi) r), map snd (spec_retained_pairs n (sqrt pi) r))"
    unfolding gaussHermiteDataGolubWelsch_def J by simp
  have "length (spec_retained_pairs n (sqrt pi) r) \<le> length (spec_candidate_pairs n (sqrt pi) r)"
    unfolding spec_retained_pairs_def by (rule length_filter_le)
  also have "\<dots> = stx_M r" by (simp add: spec_candidate_pairs_def)
  finally have len: "length (spec_retained_pairs n (sqrt pi) r) \<le> nat n"
    using assms(4) by simp
  have words: "spec_retained_pairs n (sqrt pi) r
        = filter (\<lambda>p. \<not> snd p < sqrt DBL_EPSILON)
            (map (\<lambda>i. (stx_W r ! i, sqrt pi * (stx_Z r ! (i * nat n))\<^sup>2)) [0..<stx_M r])"
    by (simp add: spec_retained_pairs_def spec_candidate_pairs_def)
  show ?thesis
    using run len words by (auto simp add: spec_retained_pairs_def)
qed

lemma sqrt_pi_ge_1: "1 \<le> sqrt pi"
  using pi_ge_two by (intro real_sqrt_ge_one) simp

theorem golub_welsch_rule_witness:
  "gaussHermiteDataGolubWelsch
     (\<lambda>a. \<lparr>stx_M = 2, stx_W = [- 1, 1], stx_Z = [1, 0, 0, 1], stx_INFO = 0\<rparr>) 5 2 [0, 0] [0, 0]
   = Inr (0, [- 1], [sqrt pi])"
proof -
  have thr: "\<not> sqrt pi * 67108864 < 1"
    using sqrt_pi_ge_1 by linarith
  have cap: "Z_size 5 2 = 210"
    by (simp add: Z_size_def Mmax_of_def)
  from golub_welsch_rule[of 2 _ "\<lambda>a. \<lparr>stx_M = 2, stx_W = [- 1, 1], stx_Z = [1, 0, 0, 1], stx_INFO = 0\<rparr>" 5 "[0, 0]" "[0, 0]", OF _ _ refl]
  show ?thesis
    by (simp add: cap spec_retained_pairs_def spec_candidate_pairs_def upt_2 sqrt_DBL_EPSILON thr)
qed

subsection \<open>The request to the eigensolver and the storage for the eigenvectors\<close>

lemma quadInfoGolubWelsch_overrun:
  assumes "0 \<le> n" and "5 * n < 2 ^ 31" and "r = dstevx (dstevx_call n D E)"
    and "length (stx_W r) \<le> nat n" and "Z_size predicted n < length (stx_Z r)"
  shows "quadInfoGolubWelsch dstevx predicted n D E mu0 x w = Inl OutOfBounds"
proof -
  have "int_mul 5 n = Inr (5 * n)"
    using assms(1,2) by (simp add: int_mul_def)
  then show ?thesis
    using assms(1,4,5) unfolding quadInfoGolubWelsch_def Let_def assms(3)[symmetric]
    by (simp add: new_vector_def write_out_def)
qed

lemma quadInfoGolubWelsch_workspace:
  assumes "0 \<le> n" and "2 ^ 31 \<le> 5 * n"
  shows "quadInfoGolubWelsch dstevx predicted n D E mu0 x w = Inl SignedOverflow"
proof -
  have "int_mul 5 n = Inl SignedOverflow"
    using assms by (simp add: int_mul_def)
  then show ?thesis
    using assms(1) unfolding quadInfoGolubWelsch_def by (simp add: new_vector_def)
qed



text \<open>
  Claim C1 as stated fails. At the order 1098177 the prediction is 3811 and the storage
  \<open>Z\<close> has \<open>3911 * 1098177 mod 2\<^sup>3\<^sup>2 = 2951\<close> entries: a single eigenvector does not fit,
  and the engine returns no rule. At the order 429496730 the size \<open>5 n\<close> of the workspace
  overflows \<^verbatim>\<open>int\<close>.
\<close>

theorem golub_welsch_counterexample:
  "Z_size 3811 1098177 = 2951
   \<and> gaussHermiteDataGolubWelsch
        (\<lambda>a. \<lparr>stx_M = 1, stx_W = [0], stx_Z = 1 # replicate 1098176 0, stx_INFO = 0\<rparr>)
        3811 1098177 (replicate 1098177 0) (replicate 1098177 0) = Inl OutOfBounds
   \<and> gaussHermiteDataGolubWelsch
        (\<lambda>a. \<lparr>stx_M = 0, stx_W = [], stx_Z = [], stx_INFO = 0\<rparr>)
        76379 429496730 (replicate 429496730 0) (replicate 429496730 0) = Inl SignedOverflow"
proof -
  let ?d1 = "\<lambda>a::dstevx_args. \<lparr>stx_M = 1, stx_W = [0::real],
      stx_Z = 1 # replicate 1098176 (0::real), stx_INFO = 0\<rparr>"
  let ?d2 = "\<lambda>a::dstevx_args. \<lparr>stx_M = 0, stx_W = [] :: real list,
      stx_Z = [] :: real list, stx_INFO = 0\<rparr>"
  have Z: "Z_size 3811 1098177 = 2951" by (simp add: Z_size_def Mmax_of_def)
  obtain D E where J: "hermite_jacobi 1098177 = Inr (D, E)"
    using hermite_jacobi_eq[of 1098177] by simp
  have "quadInfoGolubWelsch ?d1 3811 1098177 D E (sqrt pi)
      (replicate 1098177 0) (replicate 1098177 0) = Inl OutOfBounds"
    by (rule quadInfoGolubWelsch_overrun[where r = "?d1 (dstevx_call 1098177 D E)"])
      (simp_all add: Z)
  then have a: "gaussHermiteDataGolubWelsch ?d1 3811 1098177
      (replicate 1098177 0) (replicate 1098177 0) = Inl OutOfBounds"
    unfolding gaussHermiteDataGolubWelsch_def J by simp
  obtain D' E' where J': "hermite_jacobi 429496730 = Inr (D', E')"
    using hermite_jacobi_eq[of 429496730] by simp
  have "quadInfoGolubWelsch ?d2 76379 429496730 D' E' (sqrt pi)
      (replicate 429496730 0) (replicate 429496730 0) = Inl SignedOverflow"
    by (rule quadInfoGolubWelsch_workspace) simp_all
  then have b: "gaussHermiteDataGolubWelsch ?d2 76379 429496730
      (replicate 429496730 0) (replicate 429496730 0) = Inl SignedOverflow"
    unfolding gaussHermiteDataGolubWelsch_def J' by simp
  from Z a b show ?thesis by simp
qed

text \<open>
  While \<open>(predicted + 100) * n\<close> is below \<open>2\<^sup>3\<^sup>2\<close> the storage has exactly
  \<open>Mmax * n\<close> entries with \<open>Mmax = predicted + 100\<close>, and for every order the request is
  for the eigenvalues in the interval from \<open>- 4\<close> to \<open>4\<close> (\<^verbatim>\<open>RANGE = 'V'\<close>), with the
  eigenvectors (\<^verbatim>\<open>JOBZ = 'V'\<close>).
\<close>

theorem eigenvector_storage_exact:
  assumes "0 \<le> n" and "(int predicted + 100) * n < 2 ^ 32" and "predicted + 100 < 2 ^ 32"
  shows "Mmax_of predicted = predicted + 100
    \<and> Z_size predicted n = Mmax_of predicted * nat n
    \<and> stx_RANGE (dstevx_call n D E) = CHR ''V'' \<and> stx_JOBZ (dstevx_call n D E) = CHR ''V''
    \<and> stx_VL (dstevx_call n D E) = - 4 \<and> stx_VU (dstevx_call n D E) = 4"
proof -
  have M: "Mmax_of predicted = predicted + 100"
    using assms(3) by (simp add: Mmax_of_def)
  have nn: "0 \<le> (int predicted + 100) * n" using assms(1) by simp
  have "(int (Mmax_of predicted) * n) mod 2 ^ 32 = (int predicted + 100) * n"
    unfolding M using nn assms(2) by (simp add: mod_pos_pos_trivial)
  then have "Z_size predicted n = nat ((int predicted + 100) * n)"
    unfolding Z_size_def by simp
  also have "\<dots> = (predicted + 100) * nat n"
    using assms(1) by (simp add: nat_mult_distrib nat_add_distrib)
  finally have "Z_size predicted n = Mmax_of predicted * nat n" unfolding M .
  with M show ?thesis by (simp add: dstevx_call_def)
qed

theorem eigenvector_storage_exact_witness:
  "Mmax_of 3724 = 3824 \<and> Z_size 3724 1048576 = 4009754624"
  using eigenvector_storage_exact[of 1048576 3724] by simp

text \<open>
  Claim C2 at the order \<open>n = 2\<^sup>2\<^sup>1 = 2097152\<close>, where the prediction is 5275. \<open>Mmax\<close> is
  5375 and \<open>Mmax * n\<close> is 11272192000, but the product is taken in \<^verbatim>\<open>unsigned int\<close> and \<open>Z\<close>
  gets 2682257408 entries only. Already 1280 eigenvectors, far fewer than \<open>Mmax\<close>, do not
  fit \<open>Z\<close>: \<^verbatim>\<open>dstevx\<close> writes beyond its end.
\<close>

theorem eigenvector_storage_wraps:
  "Mmax_of 5275 = 5375
   \<and> int (Mmax_of 5275) * 2097152 = 11272192000
   \<and> Z_size 5275 2097152 = 2682257408
   \<and> gaussHermiteDataGolubWelsch
        (\<lambda>a. \<lparr>stx_M = 1280, stx_W = replicate 1280 0, stx_Z = replicate (1280 * 2097152) 0,
               stx_INFO = 0\<rparr>)
        5275 2097152 [] [] = Inl OutOfBounds"
proof -
  let ?dstevx = "\<lambda>a::dstevx_args. \<lparr>stx_M = 1280, stx_W = replicate 1280 (0::real),
      stx_Z = replicate (1280 * 2097152) (0::real), stx_INFO = 0\<rparr>"
  have M: "Mmax_of 5275 = 5375" by (simp add: Mmax_of_def)
  have Z: "Z_size 5275 2097152 = 2682257408" by (simp add: Z_size_def M)
  obtain D E where J: "hermite_jacobi 2097152 = Inr (D, E)"
    using hermite_jacobi_eq[of 2097152] by simp
  have "quadInfoGolubWelsch ?dstevx 5275 2097152 D E (sqrt pi) [] [] = Inl OutOfBounds"
    by (rule quadInfoGolubWelsch_overrun[where r = "?dstevx (dstevx_call 2097152 D E)"])
      (simp_all add: Z)
  then have "gaussHermiteDataGolubWelsch ?dstevx 5275 2097152 [] [] = Inl OutOfBounds"
    unfolding gaussHermiteDataGolubWelsch_def J by simp
  with M Z show ?thesis by simp
qed

section \<open>hermitePoly and evalHermitePoly\<close>

lemma and_then_return: "and_then r (\<lambda>s. Inr s) = r"
  by (cases r) simp_all

lemma counter_step_ok: "i + 1 < 2 ^ 31 \<Longrightarrow> counter_step i = (\<lambda>s. Inr s)"
  by (rule ext) (simp add: counter_step_def)

text \<open>The loop of \<open>hermitePoly\<close> computes the recurrence of the specification.\<close>

lemma hermite_H_step:
  assumes "2 \<le> k"
  shows "2 * x * hermite_H x (k - 1) - 2 * (real_of_int (int k) - 1) * hermite_H x (k - 2)
    = hermite_H x k"
proof -
  from assms obtain j where k: "k = Suc (Suc j)" by (metis add_2_eq_Suc le_Suc_ex)
  show ?thesis unfolding k by simp
qed

lemma hermitePoly_loop_H:
  assumes "2 \<le> k" and "k \<le> m + 1" and "int m < 2 ^ 31 - 1"
  shows "hermitePoly_loop x (int m) (int k) (hermite_H x (k - 2), hermite_H x (k - 1), h)
    = Inr (hermite_H x (m - 1), hermite_H x m, if k \<le> m then hermite_H x m else h)"
  using assms
proof (induction "m + 1 - k" arbitrary: k h)
  case 0
  then have k: "k = m + 1" by simp
  show ?case unfolding k by (subst hermitePoly_loop.simps) (simp add: numeral_2_eq_2)
next
  case (Suc d)
  then have le: "k \<le> m" by simp
  then have inc: "int k + 1 < 2 ^ 31" using Suc.prems(3) by simp
  have ih: "hermitePoly_loop x (int m) (int (Suc k))
      (hermite_H x (Suc k - 2), hermite_H x (Suc k - 1), hermite_H x k)
    = Inr (hermite_H x (m - 1), hermite_H x m, if Suc k \<le> m then hermite_H x m else hermite_H x k)"
    using Suc.hyps(2) Suc.prems le by (intro Suc.hyps(1)) simp_all
  have e1: "int (Suc k) = int k + 1" by simp
  have e2: "Suc k - 2 = k - 1" "Suc k - 1 = k" using Suc.prems(1) by simp_all
  have e3: "(if Suc k \<le> m then hermite_H x m else hermite_H x k) = hermite_H x m"
    using le by (cases "k = m") simp_all
  from ih have rest: "hermitePoly_loop x (int m) (int k + 1)
      (hermite_H x (k - 1), hermite_H x k, hermite_H x k)
    = Inr (hermite_H x (m - 1), hermite_H x m, hermite_H x m)"
    unfolding e1 e2 e3 .
  have step: "hermitePoly_loop x (int m) (int k) (A, B, h)
      = hermitePoly_loop x (int m) (int k + 1)
          (B, 2 * x * B - 2 * (real_of_int (int k) - 1) * A,
              2 * x * B - 2 * (real_of_int (int k) - 1) * A)" for A B
    by (subst hermitePoly_loop.simps) (simp only: Let_def le inc of_nat_le_iff if_True)
  show ?case
    unfolding step hermite_H_step[OF Suc.prems(1)] rest using le by simp
qed

lemma hermitePoly_H:
  assumes "0 \<le> n" and "n < 2 ^ 31 - 1"
  shows "hermitePoly x n = Inr (hermite_H x (nat n))"
proof -
  consider "n = 0" | "n = 1" | "2 \<le> n" using assms(1) by linarith
  then show ?thesis
  proof cases
    case 1
    then show ?thesis by (simp add: hermitePoly_def)
  next
    case 2
    then show ?thesis by (simp add: hermitePoly_def)
  next
    case 3
    let ?m = "nat n"
    have m: "int ?m = n" "2 \<le> ?m" using 3 by simp_all
    have "hermitePoly_loop x (int ?m) (int 2) (hermite_H x (2 - 2), hermite_H x (2 - 1), 0)
      = Inr (hermite_H x (?m - 1), hermite_H x ?m, if 2 \<le> ?m then hermite_H x ?m else 0)"
      using m(2) assms(2) by (intro hermitePoly_loop_H) simp_all
    then have "hermitePoly_loop x n 2 (1, 2 * x, 0)
      = Inr (hermite_H x (?m - 1), hermite_H x ?m, hermite_H x ?m)"
      using m by (simp add: numeral_2_eq_2)
    then show ?thesis
      using 3 by (simp add: hermitePoly_def)
  qed
qed

lemma hermitePoly_negative: "n < 0 \<Longrightarrow> hermitePoly x n = Inr 0"
  by (simp add: hermitePoly_def hermitePoly_loop.simps)

lemma hermitePoly_value:
  "n < 2 ^ 31 - 1 \<Longrightarrow> hermitePoly x n = Inr (if n < 0 then 0 else hermite_H x (nat n))"
  by (simp add: hermitePoly_negative hermitePoly_H)

text \<open>At the largest \<^verbatim>\<open>int\<close> the last increment of the counter overflows.\<close>

lemma hermitePoly_loop_overflow:
  assumes "i \<le> 2 ^ 31 - 1"
  shows "hermitePoly_loop x (2 ^ 31 - 1) i s = Inl SignedOverflow"
  using assms
proof (induction "nat (2 ^ 31 - 1 - i)" arbitrary: i s)
  case 0
  then have i: "i = 2 ^ 31 - 1" by simp
  obtain a b c where s: "s = (a, b, c)" by (cases s)
  show ?case unfolding i s by (subst hermitePoly_loop.simps) simp
next
  case (Suc d)
  obtain a b c where s: "s = (a, b, c)" by (cases s)
  from Suc.hyps(2) have lt: "i + 1 \<le> 2 ^ 31 - 1" by simp
  have "hermitePoly_loop x (2 ^ 31 - 1) (i + 1) t = Inl SignedOverflow" for t
    using Suc.hyps(2) lt by (intro Suc.hyps(1)) simp_all
  then show ?case
    unfolding s using lt by (subst hermitePoly_loop.simps) (simp add: Let_def)
qed

lemma hermitePoly_overflow: "hermitePoly x (2 ^ 31 - 1) = Inl SignedOverflow"
proof -
  have "hermitePoly_loop x (2 ^ 31 - 1) 2 (1, 2 * x, 0) = Inl SignedOverflow"
    by (rule hermitePoly_loop_overflow) simp
  then show ?thesis by (simp add: hermitePoly_def)
qed

text \<open>The three loops of \<open>evalHermitePoly\<close>.\<close>

lemma eval_loop:
  assumes m: "int m < 2 ^ 31"
    and body: "\<And>i h. 0 \<le> i \<Longrightarrow> i < int m \<Longrightarrow>
      body i h = and_then (Inr (g (nat i))) (\<lambda>v. and_then (vec_set h i v) (counter_step i))"
  shows "for_loop 0 (int m) body (replicate m z) = Inr (map g [0..<m])"
proof (rule for_loop_fill)
  fix i and h :: "'a list"
  assume i: "0 \<le> i" "i < int m"
  then have "counter_step i = (\<lambda>s::'a list. Inr s)"
    using m by (intro counter_step_ok) simp
  then show "body i h = vec_set h i (g (nat i))"
    unfolding body[OF i] by (simp add: and_then_return)
qed

lemma eval_loop_counter:
  assumes m: "2 ^ 31 \<le> int m"
    and body: "\<And>i h. 0 \<le> i \<Longrightarrow> i < int m \<Longrightarrow> length h = m \<Longrightarrow>
      body i h = and_then (vec_set h i (g i)) (counter_step i)"
  shows "for_loop 0 (int m) body (replicate m z) = Inl SignedOverflow"
proof -
  let ?K = "2 ^ 31 - 1 :: int"
  have "\<exists>t. for_loop 0 ?K body (replicate m z) = Inr t \<and> length t = m"
  proof (rule for_loop_invariant)
    show "0 \<le> ?K" by simp
    show "length (replicate m z) = m" by simp
  next
    fix i and t :: "'a list"
    assume i: "0 \<le> i" "i < ?K" and t: "length t = m"
    have im: "i < int m" using i m by simp
    have "vec_set t i (g i) = Inr (t[nat i := g i])"
      using i im t by (simp add: vec_set_def)
    moreover have "counter_step i (t[nat i := g i]) = Inr (t[nat i := g i])"
      using i by (simp add: counter_step_def)
    ultimately have "body i t = Inr (t[nat i := g i])"
      unfolding body[OF i(1) im t] by simp
    then show "\<exists>t'. body i t = Inr t' \<and> length t' = m"
      using t by simp
  qed
  then obtain t where t: "for_loop 0 ?K body (replicate m z) = Inr t" "length t = m"
    by blast
  have Km: "0 \<le> ?K" "?K < int m" using m by simp_all
  have "vec_set t ?K (g ?K) = Inr (t[nat ?K := g ?K])"
    using Km t(2) by (simp add: vec_set_def)
  then have "body ?K t = Inl SignedOverflow"
    unfolding body[OF Km t(2)] by (simp add: counter_step_def)
  then have "for_loop ?K (int m) body t = Inl SignedOverflow"
    using Km(2) by (intro for_loop_first_fault)
  moreover have "for_loop 0 (int m) body (replicate m z)
      = and_then (for_loop 0 ?K body (replicate m z)) (for_loop ?K (int m) body)"
    using Km by (intro for_loop_split) simp_all
  ultimately show ?thesis unfolding t(1) by simp
qed

lemma eval_pairwise:
  assumes "length x = length n" and "length x < 2 ^ 31" and "\<forall>k \<in> set n. k < 2 ^ 31 - 1"
  shows "\<exists>h. evalHermitePoly x n = Inr h \<and> length h = length x
    \<and> (\<forall>i < length x. hermitePoly (x ! i) (n ! i) = Inr (h ! i))"
proof -
  define g where "g = (\<lambda>k. if n ! k < 0 then 0 else hermite_H (x ! k) (nat (n ! k)))"
  have val: "hermitePoly (x ! k) (n ! k) = Inr (g k)" if "k < length x" for k
  proof -
    have "n ! k \<in> set n" using that assms(1) by simp
    then have "n ! k < 2 ^ 31 - 1" using assms(3) by blast
    then show ?thesis unfolding g_def by (rule hermitePoly_value)
  qed
  have "for_loop 0 (int (length x)) (\<lambda>i h.
          and_then (vec_get x i) (\<lambda>xi.
          and_then (vec_get n i) (\<lambda>ni.
          and_then (hermitePoly xi ni) (\<lambda>v.
          and_then (vec_set h i v) (counter_step i))))) (replicate (length x) 0)
      = Inr (map g [0..<length x])"
  proof (rule eval_loop)
    show "int (length x) < 2 ^ 31" using assms(2) by simp
  next
    fix i and h :: "real list"
    assume i: "0 \<le> i" "i < int (length x)"
    then have k: "nat i < length x" by simp
    have "vec_get x i = Inr (x ! nat i)" "vec_get n i = Inr (n ! nat i)"
      using i assms(1) by (simp_all add: vec_get_def)
    then show "and_then (vec_get x i) (\<lambda>xi.
          and_then (vec_get n i) (\<lambda>ni.
          and_then (hermitePoly xi ni) (\<lambda>v.
          and_then (vec_set h i v) (counter_step i))))
        = and_then (Inr (g (nat i))) (\<lambda>v. and_then (vec_set h i v) (counter_step i))"
      by (simp add: val[OF k])
  qed
  then have "evalHermitePoly x n = Inr (map g [0..<length x])"
    by (simp add: evalHermitePoly_def assms(1))
  then show ?thesis by (simp add: val)
qed

lemma eval_first_order:
  assumes "length n < length x" and "n \<noteq> []" and "length x < 2 ^ 31" and "n ! 0 < 2 ^ 31 - 1"
  shows "\<exists>h. evalHermitePoly x n = Inr h \<and> length h = length x
    \<and> (\<forall>i < length x. hermitePoly (x ! i) (n ! 0) = Inr (h ! i))"
proof -
  define g where "g = (\<lambda>k. if n ! 0 < 0 then 0 else hermite_H (x ! k) (nat (n ! 0)))"
  have val: "hermitePoly (x ! k) (n ! 0) = Inr (g k)" for k
    unfolding g_def using assms(4) by (rule hermitePoly_value)
  have "for_loop 0 (int (length x)) (\<lambda>i h.
          and_then (vec_get x i) (\<lambda>xi.
          and_then (vec_get n 0) (\<lambda>n0.
          and_then (hermitePoly xi n0) (\<lambda>v.
          and_then (vec_set h i v) (counter_step i))))) (replicate (length x) 0)
      = Inr (map g [0..<length x])"
  proof (rule eval_loop)
    show "int (length x) < 2 ^ 31" using assms(3) by simp
  next
    fix i and h :: "real list"
    assume i: "0 \<le> i" "i < int (length x)"
    have "vec_get x i = Inr (x ! nat i)" "vec_get n 0 = Inr (n ! 0)"
      using i assms(2) by (simp_all add: vec_get_def)
    then show "and_then (vec_get x i) (\<lambda>xi.
          and_then (vec_get n 0) (\<lambda>n0.
          and_then (hermitePoly xi n0) (\<lambda>v.
          and_then (vec_set h i v) (counter_step i))))
        = and_then (Inr (g (nat i))) (\<lambda>v. and_then (vec_set h i v) (counter_step i))"
      by (simp add: val[of "nat i"])
  qed
  then have "evalHermitePoly x n = Inr (map g [0..<length x])"
    using assms(1) by (simp add: evalHermitePoly_def)
  then show ?thesis by (simp add: val)
qed

lemma eval_first_point:
  assumes "length x < length n" and "x \<noteq> []" and "length n < 2 ^ 31"
    and "\<forall>k \<in> set n. k < 2 ^ 31 - 1"
  shows "\<exists>h. evalHermitePoly x n = Inr h \<and> length h = length n
    \<and> (\<forall>i < length n. hermitePoly (x ! 0) (n ! i) = Inr (h ! i))"
proof -
  define g where "g = (\<lambda>k. if n ! k < 0 then 0 else hermite_H (x ! 0) (nat (n ! k)))"
  have val: "hermitePoly (x ! 0) (n ! k) = Inr (g k)" if "k < length n" for k
  proof -
    have "n ! k \<in> set n" using that by simp
    then have "n ! k < 2 ^ 31 - 1" using assms(4) by blast
    then show ?thesis unfolding g_def by (rule hermitePoly_value)
  qed
  have "for_loop 0 (int (length n)) (\<lambda>i h.
          and_then (vec_get x 0) (\<lambda>x0.
          and_then (vec_get n i) (\<lambda>ni.
          and_then (hermitePoly x0 ni) (\<lambda>v.
          and_then (vec_set h i v) (counter_step i))))) (replicate (length n) 0)
      = Inr (map g [0..<length n])"
  proof (rule eval_loop)
    show "int (length n) < 2 ^ 31" using assms(3) by simp
  next
    fix i and h :: "real list"
    assume i: "0 \<le> i" "i < int (length n)"
    then have k: "nat i < length n" by simp
    have "vec_get x 0 = Inr (x ! 0)" "vec_get n i = Inr (n ! nat i)"
      using i assms(2) by (simp_all add: vec_get_def)
    then show "and_then (vec_get x 0) (\<lambda>x0.
          and_then (vec_get n i) (\<lambda>ni.
          and_then (hermitePoly x0 ni) (\<lambda>v.
          and_then (vec_set h i v) (counter_step i))))
        = and_then (Inr (g (nat i))) (\<lambda>v. and_then (vec_set h i v) (counter_step i))"
      by (simp add: val[OF k])
  qed
  then have "evalHermitePoly x n = Inr (map g [0..<length n])"
    using assms(1) by (simp add: evalHermitePoly_def)
  then show ?thesis by (simp add: val)
qed

text \<open>
  Claim C9, as amended: for sequences of fewer than \<open>2\<^sup>3\<^sup>1\<close> entries and orders below the
  largest \<^verbatim>\<open>int\<close>. When the two sequences have the same length the result is the pairwise
  sequence of the values of \<open>hermitePoly\<close>; when \<open>x\<close> is longer and \<open>n\<close> is not empty, every
  \<open>x[i]\<close> is evaluated at the order \<open>n[0]\<close>; when \<open>n\<close> is longer and \<open>x\<close> is not empty, every
  order \<open>n[i]\<close> is evaluated at \<open>x[0]\<close>. On these orders \<open>hermitePoly\<close> returns the value of
  the recurrence of the specification (and 0 on a negative order).
\<close>

theorem evalHermitePoly_broadcast:
  assumes "length x < 2 ^ 31" and "length n < 2 ^ 31"
  shows "(length x = length n \<and> (\<forall>k \<in> set n. k < 2 ^ 31 - 1) \<longrightarrow>
        (\<exists>h. evalHermitePoly x n = Inr h \<and> length h = length x
           \<and> (\<forall>i < length x. hermitePoly (x ! i) (n ! i) = Inr (h ! i))))
   \<and> (length n < length x \<and> n \<noteq> [] \<and> n ! 0 < 2 ^ 31 - 1 \<longrightarrow>
        (\<exists>h. evalHermitePoly x n = Inr h \<and> length h = length x
           \<and> (\<forall>i < length x. hermitePoly (x ! i) (n ! 0) = Inr (h ! i))))
   \<and> (length x < length n \<and> x \<noteq> [] \<and> (\<forall>k \<in> set n. k < 2 ^ 31 - 1) \<longrightarrow>
        (\<exists>h. evalHermitePoly x n = Inr h \<and> length h = length n
           \<and> (\<forall>i < length n. hermitePoly (x ! 0) (n ! i) = Inr (h ! i))))
   \<and> (\<forall>y k. k < 2 ^ 31 - 1 \<longrightarrow>
        hermitePoly y k = Inr (if k < 0 then 0 else hermite_H y (nat k)))"
proof (intro conjI impI allI)
  assume "length x = length n \<and> (\<forall>k \<in> set n. k < 2 ^ 31 - 1)"
  then show "\<exists>h. evalHermitePoly x n = Inr h \<and> length h = length x
           \<and> (\<forall>i < length x. hermitePoly (x ! i) (n ! i) = Inr (h ! i))"
    using assms(1) by (intro eval_pairwise) simp_all
next
  assume "length n < length x \<and> n \<noteq> [] \<and> n ! 0 < 2 ^ 31 - 1"
  then show "\<exists>h. evalHermitePoly x n = Inr h \<and> length h = length x
           \<and> (\<forall>i < length x. hermitePoly (x ! i) (n ! 0) = Inr (h ! i))"
    using assms(1) by (intro eval_first_order) simp_all
next
  assume "length x < length n \<and> x \<noteq> [] \<and> (\<forall>k \<in> set n. k < 2 ^ 31 - 1)"
  then show "\<exists>h. evalHermitePoly x n = Inr h \<and> length h = length n
           \<and> (\<forall>i < length n. hermitePoly (x ! 0) (n ! i) = Inr (h ! i))"
    using assms(2) by (intro eval_first_point) simp_all
next
  fix y :: real and k :: int
  assume "k < 2 ^ 31 - 1"
  then show "hermitePoly y k = Inr (if k < 0 then 0 else hermite_H y (nat k))"
    by (rule hermitePoly_value)
qed

theorem evalHermitePoly_broadcast_witness:
  "evalHermitePoly [1, 2] [2, 3] = Inr [2, 40]
   \<and> evalHermitePoly [0, 1, 2] [3, 4] = Inr [0, - 4, 40]
   \<and> evalHermitePoly [2] [0, 1, 2, - 1] = Inr [1, 4, 14, 0]"
proof -
  note H = hermitePoly_value eval_nat_numeral less_Suc_eq
  from evalHermitePoly_broadcast[of "[1, 2]" "[2, 3]"]
  obtain h1 where h1: "evalHermitePoly [1, 2] [2, 3] = Inr h1" "length h1 = 2"
    "\<forall>i < 2. hermitePoly ([1, 2] ! i) ([2, 3] ! i) = Inr (h1 ! i)"
    by auto
  have "h1 ! 0 = 2" "h1 ! 1 = 40"
    using h1(3)[rule_format, of 0] h1(3)[rule_format, of 1] by (simp_all add: H)
  then have "h1 = [2, 40]"
    using h1(2) by (intro nth_equalityI) (auto simp add: less_Suc_eq eval_nat_numeral)
  with h1(1) have a: "evalHermitePoly [1, 2] [2, 3] = Inr [2, 40]" by simp
  from evalHermitePoly_broadcast[of "[0, 1, 2]" "[3, 4]"]
  obtain h2 where h2: "evalHermitePoly [0, 1, 2] [3, 4] = Inr h2" "length h2 = 3"
    "\<forall>i < 3. hermitePoly ([0, 1, 2] ! i) ([3, 4] ! 0) = Inr (h2 ! i)"
    by auto
  have "h2 ! 0 = 0" "h2 ! 1 = - 4" "h2 ! 2 = 40"
    using h2(3)[rule_format, of 0] h2(3)[rule_format, of 1] h2(3)[rule_format, of 2]
    by (simp_all add: H)
  then have "h2 = [0, - 4, 40]"
    using h2(2) by (intro nth_equalityI) (auto simp add: less_Suc_eq eval_nat_numeral)
  with h2(1) have b: "evalHermitePoly [0, 1, 2] [3, 4] = Inr [0, - 4, 40]" by simp
  from evalHermitePoly_broadcast[of "[2]" "[0, 1, 2, - 1]"]
  obtain h3 where h3: "evalHermitePoly [2] [0, 1, 2, - 1] = Inr h3" "length h3 = 4"
    "\<forall>i < 4. hermitePoly ([2] ! 0) ([0, 1, 2, - 1] ! i) = Inr (h3 ! i)"
    by auto
  have "h3 ! 0 = 1" "h3 ! 1 = 4" "h3 ! 2 = 14" "h3 ! 3 = 0"
    using h3(3)[rule_format, of 0] h3(3)[rule_format, of 1] h3(3)[rule_format, of 2]
      h3(3)[rule_format, of 3]
    by (simp_all add: H)
  then have "h3 = [1, 4, 14, 0]"
    using h3(2) by (intro nth_equalityI) (auto simp add: less_Suc_eq eval_nat_numeral)
  with h3(1) have c: "evalHermitePoly [2] [0, 1, 2, - 1] = Inr [1, 4, 14, 0]" by simp
  from a b c show ?thesis by simp
qed

text \<open>
  Claim C9 as stated fails. When the shorter sequence is empty the code reads \<open>n[0]\<close> or
  \<open>x[0]\<close> outside of it; at the order \<open>2\<^sup>3\<^sup>1 - 1\<close> the counter of the loop of \<open>hermitePoly\<close>
  overflows; and on sequences of \<open>2\<^sup>3\<^sup>1\<close> entries the \<^verbatim>\<open>int\<close> counter of the loop of
  \<open>evalHermitePoly\<close> overflows.
\<close>

theorem evalHermitePoly_counterexample:
  "evalHermitePoly [2] [] = Inl OutOfBounds
   \<and> evalHermitePoly [] [3] = Inl OutOfBounds
   \<and> evalHermitePoly [0] [2147483647] = Inl SignedOverflow
   \<and> evalHermitePoly (replicate 2147483648 0) (replicate 2147483648 0) = Inl SignedOverflow"
proof -
  have a: "evalHermitePoly [2] [] = Inl OutOfBounds"
    by (simp add: evalHermitePoly_def for_loop_step vec_get_def)
  have b: "evalHermitePoly [] [3] = Inl OutOfBounds"
    by (simp add: evalHermitePoly_def for_loop_step vec_get_def)
  have "hermitePoly 0 2147483647 = Inl SignedOverflow"
    using hermitePoly_overflow[of 0] by simp
  then have c: "evalHermitePoly [0] [2147483647] = Inl SignedOverflow"
    by (simp add: evalHermitePoly_def for_loop_step vec_get_def)
  let ?m = "2147483648 :: nat"
  have "for_loop 0 (int ?m) (\<lambda>i h.
          and_then (vec_get (replicate ?m 0) i) (\<lambda>xi.
          and_then (vec_get (replicate ?m 0) i) (\<lambda>ni.
          and_then (hermitePoly xi ni) (\<lambda>v.
          and_then (vec_set h i v) (counter_step i))))) (replicate ?m (0::real))
      = Inl SignedOverflow"
  proof (rule eval_loop_counter[where g = "\<lambda>i. 1"])
    show "2 ^ 31 \<le> int ?m" by simp
  next
    fix i and h :: "real list"
    assume i: "0 \<le> i" "i < int ?m"
    then have "nat i < ?m" by simp
    then have "vec_get (replicate ?m (0::real)) i = Inr 0"
      "vec_get (replicate ?m (0::int)) i = Inr 0"
      using i by (simp_all add: vec_get_def)
    then show "and_then (vec_get (replicate ?m 0) i) (\<lambda>xi.
          and_then (vec_get (replicate ?m 0) i) (\<lambda>ni.
          and_then (hermitePoly xi ni) (\<lambda>v.
          and_then (vec_set h i v) (counter_step i))))
        = and_then (vec_set h i 1) (counter_step i)"
      by (simp add: hermitePoly_def)
  qed
  then have d: "evalHermitePoly (replicate ?m 0) (replicate ?m 0) = Inl SignedOverflow"
    by (simp add: evalHermitePoly_def)
  from a b c d show ?thesis by simp
qed

section \<open>findPolyRoots\<close>

lemma for_loop_scatter:
  assumes "lo \<le> hi"
    and bounds: "\<And>i. lo \<le> i \<Longrightarrow> i < hi \<Longrightarrow> 0 \<le> idx i \<and> idx i < int (length C)"
    and inj: "\<And>i j. lo \<le> i \<Longrightarrow> i < j \<Longrightarrow> j < hi \<Longrightarrow> idx i \<noteq> idx j"
  shows "\<exists>C'. for_loop lo hi (\<lambda>i C. vec_set C (idx i) (val i)) C = Inr C'
      \<and> length C' = length C
      \<and> (\<forall>i. lo \<le> i \<and> i < hi \<longrightarrow> C' ! nat (idx i) = val i)
      \<and> (\<forall>k < length C. (\<forall>i. lo \<le> i \<and> i < hi \<longrightarrow> idx i \<noteq> int k) \<longrightarrow> C' ! k = C ! k)"
proof -
  let ?P = "\<lambda>i C'. length C' = length C
      \<and> (\<forall>j. lo \<le> j \<and> j < i \<longrightarrow> C' ! nat (idx j) = val j)
      \<and> (\<forall>k < length C. (\<forall>j. lo \<le> j \<and> j < i \<longrightarrow> idx j \<noteq> int k) \<longrightarrow> C' ! k = C ! k)"
  have "\<exists>C'. for_loop lo hi (\<lambda>i C. vec_set C (idx i) (val i)) C = Inr C' \<and> ?P hi C'"
  proof (rule for_loop_invariant)
    show "lo \<le> hi" by fact
    show "?P lo C" by auto
  next
    fix i t
    assume i: "lo \<le> i" "i < hi" and P: "?P i t"
    from bounds[OF i] P have b: "0 \<le> idx i" "nat (idx i) < length t" by auto
    have set: "vec_set t (idx i) (val i) = Inr (t[nat (idx i) := val i])"
      using b by (simp add: vec_set_def)
    have "?P (i + 1) (t[nat (idx i) := val i])"
    proof (intro conjI allI impI)
      show "length (t[nat (idx i) := val i]) = length C" using P by simp
    next
      fix j assume j: "lo \<le> j \<and> j < i + 1"
      show "t[nat (idx i) := val i] ! nat (idx j) = val j"
      proof (cases "j = i")
        case True
        then show ?thesis using b by simp
      next
        case False
        with j have ji: "j < i" by simp
        then have "idx j \<noteq> idx i" using inj[of j i] j i by simp
        moreover have "0 \<le> idx j" using bounds[of j] j ji i by simp
        ultimately have "nat (idx i) \<noteq> nat (idx j)" using b by simp
        then show ?thesis using P j ji by simp
      qed
    next
      fix k assume k: "k < length C" and free: "\<forall>j. lo \<le> j \<and> j < i + 1 \<longrightarrow> idx j \<noteq> int k"
      from free i have "idx i \<noteq> int k" by simp
      then have "nat (idx i) \<noteq> k" using b by auto
      moreover have "t ! k = C ! k" using P k free by simp
      ultimately show "t[nat (idx i) := val i] ! k = C ! k" by simp
    qed
    with set show "\<exists>t'. vec_set t (idx i) (val i) = Inr t' \<and> ?P (i + 1) t'" by blast
  qed
  then show ?thesis by blast
qed

text \<open>The entry of the companion matrix at the column-major position \<open>k\<close>.\<close>

lemma companion_eq:
  assumes n: "0 \<le> n" and nn: "n * n < 2 ^ 31" and c: "nat n < length c"
  shows "companion c n =
    Inr (map (\<lambda>k. if k div nat n = nat n - 1 then ddiv (- (c ! (k mod nat n))) (c ! nat n)
                   else if k mod nat n = k div nat n + 1 then Some 1 else Some 0)
          [0..<nat n * nat n])"
proof -
  let ?m = "nat n"
  let ?C1 = "replicate (?m * ?m) (Some (0::real))"
  let ?entry = "\<lambda>k. if k div ?m = ?m - 1 then ddiv (- (c ! (k mod ?m))) (c ! ?m)
                   else if k mod ?m = k div ?m + 1 then Some 1 else Some 0"
  have nn0: "0 \<le> n * n" using n by simp
  have "- (2 ^ 31) \<le> n * n"
    using nn0 by (rule order_trans[rotated]) simp
  then have mul: "int_mul n n = Inr (n * n)"
    using nn by (simp add: int_mul_def)
  have natnn: "nat (n * n) = ?m * ?m" using n by (simp add: nat_mult_distrib)
  have l1: "for_loop 0 (n * n) (\<lambda>i C. vec_set C i (Some (0::real))) ?C1 = Inr ?C1"
    using for_loop_tabulate[OF nn0, of ?C1 "\<lambda>i. Some 0"]
    by (simp add: natnn map_replicate_const)
  \<comment> \<open>the subdiagonal\<close>
  let ?idx2 = "\<lambda>i. i + n * (i - 1)"
  have idx2: "?idx2 i = int (nat i + ?m * (nat i - 1))" if "1 \<le> i" for i
    using that n by (simp add: nat_diff_distrib' of_nat_diff)
  have lt_mm: "a + ?m * b < ?m * ?m" if "a < ?m" "b < ?m" for a b
  proof -
    have "a + ?m * b < ?m + ?m * b" using that by simp
    also have "\<dots> = ?m * Suc b" by simp
    also have "\<dots> \<le> ?m * ?m" using that by (intro mult_le_mono2) simp
    finally show ?thesis .
  qed
  have "\<exists>C'. for_loop 1 n (\<lambda>i C. vec_set C (?idx2 i) (Some 1)) ?C1 = Inr C'
      \<and> length C' = length ?C1
      \<and> (\<forall>i. 1 \<le> i \<and> i < n \<longrightarrow> C' ! nat (?idx2 i) = Some 1)
      \<and> (\<forall>k < length ?C1. (\<forall>i. 1 \<le> i \<and> i < n \<longrightarrow> ?idx2 i \<noteq> int k) \<longrightarrow> C' ! k = ?C1 ! k)"
    if "1 \<le> n"
  proof (rule for_loop_scatter)
    show "1 \<le> n" by fact
  next
    fix i assume i: "1 \<le> i" "i < n"
    have "nat i + ?m * (nat i - 1) < ?m * ?m"
      using i by (intro lt_mm) simp_all
    then have "0 \<le> int (nat i + ?m * (nat i - 1))
        \<and> int (nat i + ?m * (nat i - 1)) < int (length ?C1)"
      by (simp only: of_nat_less_iff of_nat_0_le_iff length_replicate simp_thms)
    then show "0 \<le> ?idx2 i \<and> ?idx2 i < int (length ?C1)"
      unfolding idx2[OF i(1)] .
  next
    fix i j assume ij: "1 \<le> i" "i < j" "j < n"
    have "?idx2 i < ?idx2 j"
    proof -
      have "n * (i - 1) \<le> n * (j - 1)" using ij n by (intro mult_left_mono) simp_all
      with ij(2) show ?thesis by (rule add_less_le_mono)
    qed
    then show "?idx2 i \<noteq> ?idx2 j" by simp
  qed
  then obtain C2 where l2: "for_loop 1 n (\<lambda>i C. vec_set C (?idx2 i) (Some 1)) ?C1 = Inr C2"
    and len2: "length C2 = ?m * ?m"
    and C2a: "\<And>i. 1 \<le> i \<Longrightarrow> i < n \<Longrightarrow> C2 ! nat (?idx2 i) = Some 1"
    and C2b: "\<And>k. k < ?m * ?m \<Longrightarrow> (\<forall>i. 1 \<le> i \<and> i < n \<longrightarrow> ?idx2 i \<noteq> int k) \<Longrightarrow> C2 ! k = Some 0"
  proof (cases "1 \<le> n")
    case True
    from \<open>1 \<le> n \<Longrightarrow> \<exists>C'. _ C'\<close>[OF True] obtain C' where
      C': "for_loop 1 n (\<lambda>i C. vec_set C (?idx2 i) (Some 1)) ?C1 = Inr C'"
      "length C' = length ?C1"
      "\<forall>i. 1 \<le> i \<and> i < n \<longrightarrow> C' ! nat (?idx2 i) = Some 1"
      "\<forall>k < length ?C1. (\<forall>i. 1 \<le> i \<and> i < n \<longrightarrow> ?idx2 i \<noteq> int k) \<longrightarrow> C' ! k = ?C1 ! k"
      by blast
    show ?thesis
    proof (rule that[of C'])
      show "for_loop 1 n (\<lambda>i C. vec_set C (?idx2 i) (Some 1)) ?C1 = Inr C'" by fact
      show "length C' = ?m * ?m" using C'(2) by simp
      show "C' ! nat (?idx2 i) = Some 1" if "1 \<le> i" "i < n" for i using C'(3) that by blast
      show "C' ! k = Some 0" if "k < ?m * ?m" "\<forall>i. 1 \<le> i \<and> i < n \<longrightarrow> ?idx2 i \<noteq> int k" for k
        using C'(4) that by simp
    qed
  next
    case False
    with n have "n = 0" by simp
    then show ?thesis by (intro that[of ?C1]) (simp_all add: for_loop_done)
  qed
  \<comment> \<open>the last column\<close>
  let ?idx3 = "\<lambda>i. i + n * (n - 1)"
  let ?val3 = "\<lambda>i. ddiv (- (c ! nat i)) (c ! ?m)"
  have idx3: "?idx3 i = int (nat i + ?m * (?m - 1))" if "0 \<le> i" "i < n" for i
    using that n by (simp add: nat_diff_distrib' of_nat_diff)
  have body3: "for_loop 0 n (\<lambda>i C.
       and_then (vec_get c i) (\<lambda>ci.
       and_then (vec_get c n) (\<lambda>cn.
       vec_set C (i + n * (n - 1)) (ddiv (- ci) cn)))) C2
     = for_loop 0 n (\<lambda>i C. vec_set C (?idx3 i) (?val3 i)) C2"
  proof (rule for_loop_cong)
    fix i t assume i: "0 \<le> i" "i < n"
    have cn: "n < int (length c)" using c n by linarith
    then have "vec_get c n = Inr (c ! ?m)" "vec_get c i = Inr (c ! nat i)"
      using i n by (simp_all add: vec_get_def)
    then show "and_then (vec_get c i) (\<lambda>ci.
       and_then (vec_get c n) (\<lambda>cn.
       vec_set t (i + n * (n - 1)) (ddiv (- ci) cn))) = vec_set t (?idx3 i) (?val3 i)"
      by simp
  qed
  have "\<exists>C'. for_loop 0 n (\<lambda>i C. vec_set C (?idx3 i) (?val3 i)) C2 = Inr C'
      \<and> length C' = length C2
      \<and> (\<forall>i. 0 \<le> i \<and> i < n \<longrightarrow> C' ! nat (?idx3 i) = ?val3 i)
      \<and> (\<forall>k < length C2. (\<forall>i. 0 \<le> i \<and> i < n \<longrightarrow> ?idx3 i \<noteq> int k) \<longrightarrow> C' ! k = C2 ! k)"
  proof (rule for_loop_scatter)
    show "0 \<le> n" by fact
  next
    fix i assume i: "0 \<le> i" "i < n"
    have "nat i + ?m * (?m - 1) < ?m * ?m"
      using i by (intro lt_mm) simp_all
    then have "0 \<le> int (nat i + ?m * (?m - 1))
        \<and> int (nat i + ?m * (?m - 1)) < int (length C2)"
      unfolding len2 by (simp only: of_nat_less_iff of_nat_0_le_iff simp_thms)
    then show "0 \<le> ?idx3 i \<and> ?idx3 i < int (length C2)"
      unfolding idx3[OF i] .
  next
    fix i j :: int assume "i < j"
    then show "?idx3 i \<noteq> ?idx3 j" by simp
  qed
  then obtain C3 where l3: "for_loop 0 n (\<lambda>i C. vec_set C (?idx3 i) (?val3 i)) C2 = Inr C3"
    and len3: "length C3 = ?m * ?m"
    and C3a: "\<And>i. 0 \<le> i \<Longrightarrow> i < n \<Longrightarrow> C3 ! nat (?idx3 i) = ?val3 i"
    and C3b: "\<And>k. k < ?m * ?m \<Longrightarrow> (\<forall>i. 0 \<le> i \<and> i < n \<longrightarrow> ?idx3 i \<noteq> int k) \<Longrightarrow> C3 ! k = C2 ! k"
    using len2 by auto
  have run: "companion c n = Inr C3"
    unfolding companion_def
    using n by (simp add: mul new_vector_def natnn l1 l2 body3 l3)
  have "C3 = map ?entry [0..<?m * ?m]"
  proof (rule nth_equalityI)
    show "length C3 = length (map ?entry [0..<?m * ?m])" using len3 by simp
  next
    fix k assume "k < length C3"
    then have k: "k < ?m * ?m" using len3 by simp
    then have m0: "0 < ?m" by (cases "?m") simp_all
    have kmod: "k mod ?m < ?m" using m0 by simp
    have kdiv: "k div ?m < ?m" using k m0 by (simp add: less_mult_imp_div_less)
    have kk: "k = k mod ?m + ?m * (k div ?m)" by simp
    show "C3 ! k = map ?entry [0..<?m * ?m] ! k"
    proof (cases "k div ?m = ?m - 1")
      case True
      let ?i = "int (k mod ?m)"
      have i: "0 \<le> ?i" "?i < n" using kmod by simp_all
      have "k mod ?m + ?m * (?m - 1) = k" using kk True by simp
      then have "?idx3 ?i = int k"
        using idx3[OF i] by (simp only: nat_int)
      then have "nat (?idx3 ?i) = k" by (simp only: nat_int)
      with C3a[OF i] show ?thesis using k True by simp
    next
      case False
      have no3: "\<forall>i. 0 \<le> i \<and> i < n \<longrightarrow> ?idx3 i \<noteq> int k"
      proof (intro allI impI)
        fix i assume i: "0 \<le> i \<and> i < n"
        show "?idx3 i \<noteq> int k"
        proof
          assume e: "?idx3 i = int k"
          from i have i': "0 \<le> i" "i < n" by simp_all
          have "int (nat i + ?m * (?m - 1)) = int k"
            by (rule trans[OF idx3[OF i', symmetric] e])
          then have "k = nat i + ?m * (?m - 1)" by (simp only: of_nat_eq_iff)
          then have "k div ?m = ?m - 1" using i by simp
          with False show False by simp
        qed
      qed
      have k2: "C3 ! k = C2 ! k" by (rule C3b[OF k no3])
      show ?thesis
      proof (cases "k mod ?m = k div ?m + 1")
        case True
        let ?i = "int (k mod ?m)"
        have i: "1 \<le> ?i" "?i < n" using kmod True by simp_all
        have "k mod ?m + ?m * (k mod ?m - 1) = k" using kk True by simp
        then have "?idx2 ?i = int k"
          using idx2[OF i(1)] by (simp only: nat_int)
        then have "nat (?idx2 ?i) = k" by (simp only: nat_int)
        with C2a[OF i] show ?thesis using k False True k2 by simp
      next
        case F2: False
        have no2: "\<forall>i. 1 \<le> i \<and> i < n \<longrightarrow> ?idx2 i \<noteq> int k"
        proof (intro allI impI)
          fix i assume i: "1 \<le> i \<and> i < n"
          show "?idx2 i \<noteq> int k"
          proof
            assume e0: "?idx2 i = int k"
            from i have i': "1 \<le> i" by simp
            have "int (nat i + ?m * (nat i - 1)) = int k"
              by (rule trans[OF idx2[OF i', symmetric] e0])
            then have e: "k = nat i + ?m * (nat i - 1)" by (simp only: of_nat_eq_iff)
            have "nat i < ?m" using i by simp
            then have "k mod ?m = nat i" "k div ?m = nat i - 1" unfolding e by simp_all
            with F2 i show False by simp
          qed
        qed
        have "C2 ! k = Some 0" by (rule C2b[OF k no2])
        then show ?thesis using k False F2 k2 by simp
      qed
    qed
  qed
  with run show ?thesis by simp
qed

lemma companion_spec:
  assumes "0 \<le> n" and "n * n < 2 ^ 31" and "nat n < length c" and "c ! nat n \<noteq> 0"
  shows "companion c n = Inr (spec_companion c (nat n))"
  unfolding companion_eq[OF assms(1,2,3)] spec_companion_def
  using assms(4) by (simp add: ddiv_def spec_companion_entry_def)

lemma spec_companion_nth:
  assumes "i < n" and "j < n"
  shows "spec_companion c n ! (i + n * j) = Some (spec_companion_entry c n i j)"
proof -
  have "i + n * j < n + n * j" using assms by simp
  also have "\<dots> = n * Suc j" by simp
  also have "\<dots> \<le> n * n" using assms by (intro mult_le_mono2) simp
  finally have "i + n * j < n * n" .
  then show ?thesis using assms by (simp add: spec_companion_def)
qed

lemma companion_zero_leading:
  assumes "0 < n" and "n * n < 2 ^ 31" and "nat n < length c" and "c ! nat n = 0"
  shows "\<exists>C. companion c n = Inr C \<and> length C = nat n * nat n
    \<and> (\<forall>i < nat n. C ! (i + nat n * (nat n - 1)) = None)"
proof -
  have n0: "0 \<le> n" using assms(1) by simp
  let ?m = "nat n"
  have idx: "i + ?m * (?m - 1) < ?m * ?m" if "i < ?m" for i
  proof -
    have "i + ?m * (?m - 1) < ?m + ?m * (?m - 1)" using that by simp
    also have "\<dots> = ?m * Suc (?m - 1)" by simp
    also have "\<dots> = ?m * ?m" using assms(1) by simp
    finally show ?thesis .
  qed
  show ?thesis
    unfolding companion_eq[OF n0 assms(2,3)]
    using assms(1,4) idx by (simp add: ddiv_def)
qed

lemma double_to_int_floor:
  assumes "0 \<le> d" and "d < 2 ^ 31"
  shows "double_to_int d = Inr \<lfloor>d\<rfloor>" and "0 \<le> \<lfloor>d\<rfloor>"
proof -
  show f0: "0 \<le> \<lfloor>d\<rfloor>" using assms(1) by simp
  have "\<lfloor>d\<rfloor> < 2 ^ 31" using assms(2) by (simp add: floor_less_iff)
  moreover have "- (2 ^ 31) \<le> \<lfloor>d\<rfloor>" using f0 by (rule order_trans[rotated]) simp
  ultimately show "double_to_int d = Inr \<lfloor>d\<rfloor>"
    using assms(1) by (simp add: double_to_int_def Let_def)
qed

lemma findPolyRoots_eq:
  assumes C: "companion c n = Inr C" and n: "0 \<le> n"
    and sz: "dgeev_sizes dgeev n" and r: "nat n \<le> length r"
  shows "findPolyRoots dgeev c n r =
    Inr (gv_WR (dgeev (dgeev_call n C \<lfloor>gv_WORK1 (dgeev (dgeev_call n C (- 1)))\<rfloor>)) @ drop (nat n) r)"
proof -
  let ?q = "dgeev (dgeev_call n C (- 1))"
  let ?res = "dgeev (dgeev_call n C \<lfloor>gv_WORK1 ?q\<rfloor>)"
  have q: "0 \<le> gv_WORK1 ?q" "gv_WORK1 ?q < 2 ^ 31"
    using sz by (simp_all add: dgeev_sizes_def dgeev_call_def)
  have res: "length (gv_WR ?res) = nat n" "length (gv_WI ?res) = nat n"
    using sz by (simp_all add: dgeev_sizes_def dgeev_call_def)
  note conv = double_to_int_floor[OF q]
  show ?thesis
    unfolding findPolyRoots_def C Let_def
    using n r conv(2) by (simp add: new_vector_def conv(1) write_out_def res)
qed

lemma upt_4: "[0..<4] = [0, 1, 2, 3]"
  by (simp add: upt_rec)

text \<open>
  Claim C7, as amended. For a coefficient vector \<open>c\<close> of length \<open>n + 1\<close> with \<open>c[n] \<noteq> 0\<close>
  and a degree \<open>n\<close> whose square fits an \<^verbatim>\<open>int\<close> (\<open>n \<le> 46340\<close>), a result vector \<open>r\<close> of
  length \<open>n\<close> and a \<^verbatim>\<open>dgeev\<close> that keeps to its documented sizes, \<open>findPolyRoots\<close> builds
  the companion matrix of the specification (ones on the subdiagonal, \<open>- c[i] / c[n]\<close> in
  the last column, zero elsewhere), calls \<^verbatim>\<open>dgeev\<close> on this matrix with both job flags
  \<open>N\<close> (eigenvalues only), first for the size of the workspace and then for the
  eigenvalues, and returns exactly \<open>n\<close> roots: the real parts \<open>WR\<close> of the second call,
  the imaginary parts being dropped.
\<close>

theorem findPolyRoots_companion_roots:
  assumes "0 \<le> n" and "n * n < 2 ^ 31" and "length c = nat n + 1" and "c ! nat n \<noteq> 0"
    and "length r = nat n" and "dgeev_sizes dgeev n"
    and "query = dgeev
      \<lparr>gv_JOBVL = CHR ''N'', gv_JOBVR = CHR ''N'', gv_N = n, gv_A = spec_companion c (nat n),
       gv_LDA = n, gv_LDVL = 1, gv_LDVR = 1, gv_LWORK = - 1\<rparr>"
    and "res = dgeev
      \<lparr>gv_JOBVL = CHR ''N'', gv_JOBVR = CHR ''N'', gv_N = n, gv_A = spec_companion c (nat n),
       gv_LDA = n, gv_LDVL = 1, gv_LDVR = 1, gv_LWORK = \<lfloor>gv_WORK1 query\<rfloor>\<rparr>"
  shows "companion c n = Inr (spec_companion c (nat n))
    \<and> length (spec_companion c (nat n)) = nat n * nat n
    \<and> (\<forall>i < nat n. \<forall>j < nat n.
          spec_companion c (nat n) ! (i + nat n * j)
            = Some (if j = nat n - 1 then - (c ! i) / c ! nat n else if i = j + 1 then 1 else 0))
    \<and> findPolyRoots dgeev c n r = Inr (gv_WR res)
    \<and> length (gv_WR res) = nat n"
proof -
  let ?C = "spec_companion c (nat n)"
  have q: "query = dgeev (dgeev_call n ?C (- 1))"
    unfolding dgeev_call_def by (rule assms(7))
  have res: "res = dgeev (dgeev_call n ?C \<lfloor>gv_WORK1 (dgeev (dgeev_call n ?C (- 1)))\<rfloor>)"
    unfolding assms(8) q dgeev_call_def ..
  have C: "companion c n = Inr ?C"
    by (rule companion_spec) (use assms in simp_all)
  have len: "length (gv_WR res) = nat n"
    unfolding res using assms(6) by (simp add: dgeev_sizes_def dgeev_call_def)
  have "findPolyRoots dgeev c n r = Inr (gv_WR res @ drop (nat n) r)"
    unfolding res by (rule findPolyRoots_eq[OF C assms(1,6)]) (simp add: assms(5))
  then have run: "findPolyRoots dgeev c n r = Inr (gv_WR res)"
    using assms(5) by simp
  have entries: "\<forall>i < nat n. \<forall>j < nat n.
          spec_companion c (nat n) ! (i + nat n * j)
            = Some (if j = nat n - 1 then - (c ! i) / c ! nat n else if i = j + 1 then 1 else 0)"
    by (simp add: spec_companion_nth spec_companion_entry_def)
  have "length ?C = nat n * nat n" by (simp add: spec_companion_def)
  with C len run entries show ?thesis by blast
qed

theorem findPolyRoots_companion_roots_witness:
  "companion [2, - 3, 1] 2 = Inr [Some 0, Some 1, Some (- 2), Some 3]
   \<and> findPolyRoots (\<lambda>a. \<lparr>gv_WR = [1, 2], gv_WI = [0, 0], gv_WORK1 = 68, gv_INFO = 0\<rparr>)
        [2, - 3, 1] 2 [0, 0] = Inr [1, 2]"
  using findPolyRoots_companion_roots[of 2 "[2, - 3, 1]" "[0, 0]"
      "\<lambda>a. \<lparr>gv_WR = [1, 2], gv_WI = [0, 0], gv_WORK1 = 68, gv_INFO = 0\<rparr>", OF _ _ _ _ _ _ refl refl]
  by (simp add: dgeev_sizes_def spec_companion_def spec_companion_entry_def upt_4)

text \<open>
  Claim C7 as stated fails at the degree 46341: the vector has 46342 coefficients and a
  leading coefficient 1, but the size \<open>46341\<^sup>2\<close> of the matrix overflows \<^verbatim>\<open>int\<close>; no matrix
  is built and no root is returned.
\<close>

theorem findPolyRoots_counterexample:
  "length (replicate 46341 0 @ [1::real]) = 46341 + 1
   \<and> (replicate 46341 0 @ [1::real]) ! 46341 \<noteq> 0
   \<and> companion (replicate 46341 0 @ [1]) 46341 = Inl SignedOverflow
   \<and> findPolyRoots
        (\<lambda>a. \<lparr>gv_WR = replicate 46341 0, gv_WI = replicate 46341 0, gv_WORK1 = 1, gv_INFO = 0\<rparr>)
        (replicate 46341 0 @ [1]) 46341 (replicate 46341 0) = Inl SignedOverflow"
  by (simp add: findPolyRoots_def companion_def int_mul_def nth_append)

text \<open>
  Claim C10. The division \<open>- c[i] / c[n]\<close> has no zero check. When \<open>c[n] \<noteq> 0\<close> every
  division gives the finite quotient and no entry of the companion matrix is a non-finite
  value. When \<open>c[n] = 0\<close> (and \<open>n > 0\<close>, so that the loop runs) the divisions by zero are
  carried out: the matrix is built all the same, and its whole last column is not finite.
\<close>

theorem findPolyRoots_division:
  assumes "0 \<le> n" and "n * n < 2 ^ 31" and "nat n < length c"
  shows "(c ! nat n \<noteq> 0 \<longrightarrow>
            companion c n = Inr (spec_companion c (nat n))
            \<and> None \<notin> set (spec_companion c (nat n))
            \<and> (\<forall>i < nat n. ddiv (- (c ! i)) (c ! nat n) = Some (- (c ! i) / c ! nat n)))
    \<and> (c ! nat n = 0 \<and> 0 < n \<longrightarrow>
            (\<exists>C. companion c n = Inr C \<and> length C = nat n * nat n
               \<and> (\<forall>i < nat n. C ! (i + nat n * (nat n - 1)) = None
                     \<and> ddiv (- (c ! i)) (c ! nat n) = None)))"
proof (intro conjI impI)
  assume "c ! nat n \<noteq> 0"
  then show "companion c n = Inr (spec_companion c (nat n))"
    by (intro companion_spec assms)
  show "None \<notin> set (spec_companion c (nat n))"
    by (auto simp add: spec_companion_def)
  show "\<forall>i < nat n. ddiv (- (c ! i)) (c ! nat n) = Some (- (c ! i) / c ! nat n)"
    using \<open>c ! nat n \<noteq> 0\<close> by (simp add: ddiv_def)
next
  assume z: "c ! nat n = 0 \<and> 0 < n"
  then have "\<exists>C. companion c n = Inr C \<and> length C = nat n * nat n
    \<and> (\<forall>i < nat n. C ! (i + nat n * (nat n - 1)) = None)"
    by (intro companion_zero_leading assms) simp_all
  then show "\<exists>C. companion c n = Inr C \<and> length C = nat n * nat n
               \<and> (\<forall>i < nat n. C ! (i + nat n * (nat n - 1)) = None
                     \<and> ddiv (- (c ! i)) (c ! nat n) = None)"
    using z by (auto simp add: ddiv_def)
qed

theorem findPolyRoots_division_witness:
  "companion [2, - 3, 1] 2 = Inr [Some 0, Some 1, Some (- 2), Some 3]
   \<and> (\<exists>C. companion [2, - 3, 0] 2 = Inr C \<and> length C = 4 \<and> C ! 2 = None \<and> C ! 3 = None)"
proof -
  have c1: "companion [2, - 3, 1] 2 = Inr [Some 0, Some 1, Some (- 2), Some 3]"
    using findPolyRoots_division[of 2 "[2, - 3, 1]"]
    by (simp add: spec_companion_def spec_companion_entry_def upt_4)
  from findPolyRoots_division[of 2 "[2, - 3, 0]"]
  obtain C where C: "companion [2, - 3, 0] 2 = Inr C" "length C = 4"
    and col: "\<forall>i<2. C ! (i + 2 * (2 - 1)) = None \<and> ddiv (- ([2, - 3, 0] ! i)) ([2, - 3, 0::real] ! 2) = None"
    by auto
  have "C ! 2 = None" using col[rule_format, of 0] by (simp add: numeral_2_eq_2)
  moreover have "C ! 3 = None" using col[rule_format, of 1] by (simp add: numeral_3_eq_3)
  ultimately show ?thesis using c1 C by blast
qed



section \<open>hermitePolyCoef\<close>

subsection \<open>The exact recurrence and the exactness check\<close>

lemma hermite_coef_zero: "i < j \<Longrightarrow> hermite_coef i j = 0"
proof (induction i j rule: hermite_coef.induct)
  case (4 i j)
  then show ?case by simp
qed simp_all

lemma hermite_coef_rec0:
  assumes "2 \<le> i"
  shows "hermite_coef i 0 = - 2 * (int i - 1) * hermite_coef (i - 2) 0"
proof -
  from assms obtain m where i: "i = Suc (Suc m)" by (metis add_2_eq_Suc le_Suc_ex)
  show ?thesis unfolding i by simp
qed

lemma hermite_coef_rec:
  assumes "2 \<le> i" and "1 \<le> j"
  shows "hermite_coef i j =
    2 * hermite_coef (i - 1) (j - 1) - 2 * (int i - 1) * hermite_coef (i - 2) j"
proof -
  from assms(1) obtain m where i: "i = Suc (Suc m)" by (metis add_2_eq_Suc le_Suc_ex)
  from assms(2) obtain k where j: "j = Suc k" by (cases j) simp_all
  show ?thesis unfolding i j by simp
qed

lemma hermite_row_nth: "j \<le> i \<Longrightarrow> hermite_row i ! j = hermite_coef i j"
  unfolding hermite_row_def by (simp add: nth_map_upt del: upt_Suc)

lemma length_hermite_row: "length (hermite_row i) = i + 1"
  by (simp add: hermite_row_def)

lemma next_entry_hermite:
  assumes "2 \<le> i" and "j \<le> i"
  shows "next_entry i (hermite_row (i - 2)) (hermite_row (i - 1)) j = hermite_coef i j"
proof (cases "j = 0")
  case True
  then show ?thesis
    using assms by (simp add: next_entry_def hermite_row_nth hermite_coef_rec0)
next
  case False
  then have j: "1 \<le> j" by simp
  have p1: "hermite_row (i - 1) ! (j - 1) = hermite_coef (i - 1) (j - 1)"
    using assms j by (intro hermite_row_nth) simp
  have p2: "(if j < length (hermite_row (i - 2)) then hermite_row (i - 2) ! j else 0)
      = hermite_coef (i - 2) j"
    using assms by (simp add: length_hermite_row hermite_row_nth hermite_coef_zero)
  show ?thesis
    unfolding next_entry_def p1 p2 using False hermite_coef_rec[OF assms(1) j] by simp
qed

lemma next_row_hermite:
  assumes "2 \<le> i"
  shows "next_row i (hermite_row (i - 2)) (hermite_row (i - 1)) = hermite_row i"
  unfolding next_row_def hermite_row_def[of i]
proof (rule map_cong[OF refl])
  fix x assume "x \<in> set [0..<i + 1]"
  then have "x \<le> i" by auto
  then show "next_entry i (hermite_row (i - 2)) (hermite_row (i - 1)) x = hermite_coef i x"
    by (rule next_entry_hermite[OF assms])
qed

text \<open>The machine arithmetic on row \<open>i\<close> gives the exact coefficients.\<close>

lemma exact_rows_sound:
  "exact_rows k = Some (p2, p1) \<Longrightarrow>
     p2 = hermite_row k \<and> p1 = hermite_row (k + 1)
     \<and> (\<forall>i. 2 \<le> i \<and> i \<le> k + 1 \<longrightarrow> row_check i (hermite_row (i - 2)) (hermite_row (i - 1)))"
proof (induction k arbitrary: p2 p1)
  case 0
  then show ?case by (auto simp add: hermite_row_def)
next
  case (Suc k)
  from Suc.prems obtain q2 q1 where q: "exact_rows k = Some (q2, q1)"
    by (cases "exact_rows k") auto
  from Suc.IH[OF q] have IH: "q2 = hermite_row k" "q1 = hermite_row (k + 1)"
    "\<forall>i. 2 \<le> i \<and> i \<le> k + 1 \<longrightarrow> row_check i (hermite_row (i - 2)) (hermite_row (i - 1))"
    by simp_all
  from Suc.prems q have chk: "row_check (k + 2) q2 q1"
    and res: "p2 = q1" "p1 = next_row (k + 2) q2 q1"
    by (auto split: if_splits)
  have nr: "next_row (k + 2) (hermite_row k) (hermite_row (k + 1)) = hermite_row (k + 2)"
    using next_row_hermite[of "k + 2"] by simp
  have "row_check i (hermite_row (i - 2)) (hermite_row (i - 1))" if "2 \<le> i" "i \<le> Suc k + 1" for i
  proof (cases "i = k + 2")
    case True
    then show ?thesis using chk IH(1,2) by simp
  next
    case False
    then show ?thesis using that IH(3) by simp
  qed
  then show ?case using res IH(1,2) nr by simp
qed

lemma exact_rows_mono: "exact_rows k \<noteq> None \<Longrightarrow> k' \<le> k \<Longrightarrow> exact_rows k' \<noteq> None"
proof (induction k)
  case 0
  then show ?case by simp
next
  case (Suc k)
  then have "exact_rows k \<noteq> None" by (cases "exact_rows k") auto
  with Suc show ?case by (cases "k' = Suc k") auto
qed

lemma entry_check_exact:
  assumes "entry_check i (hermite_row (i - 2)) (hermite_row (i - 1)) j" and "2 \<le> i" and "j \<le> i"
  shows "long_to_double (hermite_coef i j) = hermite_coef i j"
    and "j = 0 \<Longrightarrow> long_mul (- 2 * (int i - 1)) (hermite_coef (i - 2) 0) = Inr (hermite_coef i 0)"
    and "1 \<le> j \<Longrightarrow>
      coef_value (int i) (hermite_coef (i - 1) (j - 1)) (hermite_coef (i - 2) j)
        = Inr (hermite_coef i j)"
proof -
  from assms(1) have e: "(if j = 0 then long_mul (- 2 * (int i - 1)) (hermite_row (i - 2) ! 0)
      else coef_value (int i) (hermite_row (i - 1) ! (j - 1))
             (if j < length (hermite_row (i - 2)) then hermite_row (i - 2) ! j else 0))
       = Inr (hermite_coef i j)"
    and c: "long_to_double (hermite_coef i j) = hermite_coef i j"
    unfolding entry_check_def next_entry_hermite[OF assms(2,3)] by simp_all
  show "long_to_double (hermite_coef i j) = hermite_coef i j" by (rule c)
  show "long_mul (- 2 * (int i - 1)) (hermite_coef (i - 2) 0) = Inr (hermite_coef i 0)" if "j = 0"
    using e that by (simp add: hermite_row_nth)
  show "coef_value (int i) (hermite_coef (i - 1) (j - 1)) (hermite_coef (i - 2) j)
        = Inr (hermite_coef i j)" if "1 \<le> j"
  proof -
    have p1: "hermite_row (i - 1) ! (j - 1) = hermite_coef (i - 1) (j - 1)"
      using assms that by (intro hermite_row_nth) simp
    have p2: "(if j < length (hermite_row (i - 2)) then hermite_row (i - 2) ! j else 0)
        = hermite_coef (i - 2) j"
      using assms by (simp add: length_hermite_row hermite_row_nth hermite_coef_zero)
    from e that show ?thesis unfolding p1 p2 by simp
  qed
qed

lemma row_check_entry:
  assumes "row_check i (hermite_row (i - 2)) (hermite_row (i - 1))" and "2 \<le> i" and "j \<le> i"
  shows "long_to_double (hermite_coef i j) = hermite_coef i j"
    and "j = 0 \<Longrightarrow> long_mul (- 2 * (int i - 1)) (hermite_coef (i - 2) 0) = Inr (hermite_coef i 0)"
    and "1 \<le> j \<Longrightarrow>
      coef_value (int i) (hermite_coef (i - 1) (j - 1)) (hermite_coef (i - 2) j)
        = Inr (hermite_coef i j)"
proof -
  have "j \<in> set [0..<i + 1]" using assms(3) by auto
  moreover from assms(1)
  have "\<forall>x \<in> set [0..<i + 1]. entry_check i (hermite_row (i - 2)) (hermite_row (i - 1)) x"
    unfolding row_check_def list_all_iff .
  ultimately have e: "entry_check i (hermite_row (i - 2)) (hermite_row (i - 1)) j"
    by blast
  note r = entry_check_exact[OF e assms(2,3)]
  show "long_to_double (hermite_coef i j) = hermite_coef i j" by (rule r(1))
  show "long_mul (- 2 * (int i - 1)) (hermite_coef (i - 2) 0) = Inr (hermite_coef i 0)" if "j = 0"
    using that by (rule r(2))
  show "coef_value (int i) (hermite_coef (i - 1) (j - 1)) (hermite_coef (i - 2) j)
        = Inr (hermite_coef i j)" if "1 \<le> j"
    using that by (rule r(3))
qed

subsection \<open>The workspace\<close>

lemma cell_index: "0 \<le> n \<Longrightarrow> int r + int k * (n + 1) = int (r + k * (nat n + 1))"
  by (simp add: algebra_simps)

lemma cell_less:
  fixes r k N :: nat
  assumes "r < N" and "k < N"
  shows "r + k * N < N * N"
proof -
  have "r + k * N < N + k * N" using assms by simp
  also have "\<dots> = Suc k * N" by simp
  also have "\<dots> \<le> N * N" using assms by (intro mult_le_mono1) simp
  finally show ?thesis .
qed

lemma cell_inj:
  fixes r k N :: nat
  assumes "r < N" and "r' < N" and "r + k * N = r' + k' * N"
  shows "r = r' \<and> k = k'"
proof -
  from assms(3) have "(r + k * N) mod N = (r' + k' * N) mod N" by (rule arg_cong)
  then have r: "r = r'" using assms(1,2) by simp
  from assms(3) have "(r + k * N) div N = (r' + k' * N) div N" by (rule arg_cong)
  then have "k = k'" using assms(1,2) by simp
  with r show ?thesis by simp
qed

lemma cell_get:
  assumes "0 \<le> n" and "length work = (nat n + 1) * (nat n + 1)" and "r < nat n + 1" and "k < nat n + 1"
  shows "vec_get work (int r + int k * (n + 1)) = Inr (work ! (r + k * (nat n + 1)))"
  unfolding cell_index[OF assms(1)]
  using cell_less[OF assms(3,4)] assms(2) by (intro vec_get_nat) simp

lemma cell_set:
  assumes "0 \<le> n" and "length work = (nat n + 1) * (nat n + 1)" and "r < nat n + 1" and "k < nat n + 1"
  shows "vec_set work (int r + int k * (n + 1)) v = Inr (work[r + k * (nat n + 1) := v])"
  unfolding cell_index[OF assms(1)]
  using cell_less[OF assms(3,4)] assms(2) by (intro vec_set_nat) simp

lemma filled_length: "filled N i j work \<Longrightarrow> length work = N * N"
  by (simp add: filled_def)

lemma filled_nth:
  "filled N i j work \<Longrightarrow> r < N \<Longrightarrow> k < N \<Longrightarrow>
     work ! (r + k * N) = (if r < i \<or> (r = i \<and> k < j) then hermite_coef r k else 0)"
  by (simp add: filled_def)

lemma filled_update:
  assumes f: "filled N i j work" and i: "i < N" and j: "j < N"
  shows "filled N i (Suc j) (work[i + j * N := hermite_coef i j])"
  unfolding filled_def
proof (intro conjI allI impI)
  show "length (work[i + j * N := hermite_coef i j]) = N * N"
    using filled_length[OF f] by simp
next
  fix r k assume r: "r < N" and k: "k < N"
  show "work[i + j * N := hermite_coef i j] ! (r + k * N)
      = (if r < i \<or> (r = i \<and> k < Suc j) then hermite_coef r k else 0)"
  proof (cases "r = i \<and> k = j")
    case True
    then show ?thesis
      using cell_less[OF i j] filled_length[OF f] by simp
  next
    case False
    then have "i + j * N \<noteq> r + k * N"
      using cell_inj[OF i r, of j k] by auto
    then have "work[i + j * N := hermite_coef i j] ! (r + k * N) = work ! (r + k * N)"
      by simp
    also have "\<dots> = (if r < i \<or> (r = i \<and> k < j) then hermite_coef r k else 0)"
      by (rule filled_nth[OF f r k])
    also have "\<dots> = (if r < i \<or> (r = i \<and> k < Suc j) then hermite_coef r k else 0)"
      using False by auto
    finally show ?thesis .
  qed
qed

lemma filled_next_row:
  assumes "filled N i (Suc i) work"
  shows "filled N (Suc i) 0 work"
  unfolding filled_def
proof (intro conjI allI impI)
  show "length work = N * N" by (rule filled_length[OF assms])
next
  fix r k assume r: "r < N" and k: "k < N"
  have "work ! (r + k * N) = (if r < i \<or> (r = i \<and> k < Suc i) then hermite_coef r k else 0)"
    by (rule filled_nth[OF assms r k])
  also have "\<dots> = (if r < Suc i \<or> (r = Suc i \<and> k < 0) then hermite_coef r k else 0)"
    by (auto simp add: hermite_coef_zero)
  finally show "work ! (r + k * N)
      = (if r < Suc i \<or> (r = Suc i \<and> k < 0) then hermite_coef r k else 0)" .
qed

lemma filled_zero: "filled N 0 0 (replicate (N * N) 0)"
  unfolding filled_def by (auto simp add: cell_less)

text \<open>One assignment of the inner loop: it reads the two exact entries and writes one.\<close>

lemma coef_entry_eq:
  assumes n: "0 \<le> n" and f: "filled (nat n + 1) i j work"
    and i: "2 \<le> i" "i < nat n + 1" and j: "1 \<le> j" "j \<le> i"
  shows "coef_entry n (int i) (int j) work =
    and_then (coef_value (int i) (hermite_coef (i - 1) (j - 1)) (hermite_coef (i - 2) j))
      (\<lambda>v. Inr (work[i + j * (nat n + 1) := v]))"
proof -
  let ?N = "nat n + 1"
  note len = filled_length[OF f]
  have jN: "j < ?N" "j - 1 < ?N" "i - 1 < ?N" "i - 2 < ?N" using i j by simp_all
  have ia: "int i - 1 + (int j - 1) * (n + 1) = int (i - 1) + int (j - 1) * (n + 1)"
    using i j by (simp add: of_nat_diff)
  have ib: "int i - 2 + int j * (n + 1) = int (i - 2) + int j * (n + 1)"
    using i by (simp add: of_nat_diff)
  have a: "vec_get work (int i - 1 + (int j - 1) * (n + 1)) = Inr (hermite_coef (i - 1) (j - 1))"
    unfolding ia cell_get[OF n len jN(3) jN(2)]
    using filled_nth[OF f jN(3) jN(2)] i by simp
  have b: "vec_get work (int i - 2 + int j * (n + 1)) = Inr (hermite_coef (i - 2) j)"
    unfolding ib cell_get[OF n len jN(4) jN(1)]
    using filled_nth[OF f jN(4) jN(1)] i by simp
  have s: "vec_set work (int i + int j * (n + 1)) = (\<lambda>v. Inr (work[i + j * ?N := v]))"
    by (rule ext) (rule cell_set[OF n len i(2) jN(1)])
  show ?thesis
    unfolding coef_entry_def a b by (simp only: and_then_Inr s)
qed

lemma inner_loop:
  assumes n: "0 \<le> n" and f: "filled (nat n + 1) i 1 work"
    and i: "2 \<le> i" "i < nat n + 1" and J: "1 \<le> J" "J \<le> i + 1"
    and ok: "\<And>j. 1 \<le> j \<Longrightarrow> j < J \<Longrightarrow>
      coef_value (int i) (hermite_coef (i - 1) (j - 1)) (hermite_coef (i - 2) j)
        = Inr (hermite_coef i j)"
  shows "\<exists>work'. for_loop 1 (int J) (coef_entry n (int i)) work = Inr work'
      \<and> filled (nat n + 1) i J work'"
proof -
  let ?N = "nat n + 1"
  let ?P = "\<lambda>j' w. filled ?N i (nat j') w"
  have "\<exists>work'. for_loop 1 (int J) (coef_entry n (int i)) work = Inr work' \<and> ?P (int J) work'"
  proof (rule for_loop_invariant)
    show "1 \<le> int J" using J by simp
    show "?P 1 work" using f by simp
  next
    fix j' t assume j': "1 \<le> j'" "j' < int J" and P: "?P j' t"
    let ?j = "nat j'"
    have jj: "int ?j = j'" using j' by simp
    have j: "1 \<le> ?j" "?j < J" "?j \<le> i" "?j < ?N" using j' J i by simp_all
    have "coef_entry n (int i) (int ?j) t = Inr (t[i + ?j * ?N := hermite_coef i ?j])"
      unfolding coef_entry_eq[OF n P i j(1,3)] ok[OF j(1,2)] by simp
    moreover have "filled ?N i (Suc ?j) (t[i + ?j * ?N := hermite_coef i ?j])"
      by (rule filled_update[OF P i(2) j(4)])
    moreover have "nat (j' + 1) = Suc ?j" using j' by simp
    ultimately show "\<exists>t'. coef_entry n (int i) j' t = Inr t' \<and> ?P (j' + 1) t'"
      unfolding jj by simp
  qed
  then show ?thesis by simp
qed

text \<open>One pass of the outer loop: the first entry of the row, then the inner loop.\<close>

lemma coef_row_eq:
  assumes n: "0 \<le> n" and f: "filled (nat n + 1) i 0 work" and i: "2 \<le> i" "i < nat n + 1"
  shows "coef_row n (int i) work =
    and_then (long_mul (- 2 * (int i - 1)) (hermite_coef (i - 2) 0))
      (\<lambda>v. for_loop 1 (int i + 1) (coef_entry n (int i)) (work[i := v]))"
proof -
  let ?N = "nat n + 1"
  note len = filled_length[OF f]
  have i2: "i - 2 < ?N" "0 < ?N" using i by simp_all
  have ia: "int i - 2 = int (i - 2) + int 0 * (n + 1)" using i by (simp add: of_nat_diff)
  have ib: "int i = int i + int 0 * (n + 1)" by simp
  have a: "vec_get work (int i - 2) = Inr (hermite_coef (i - 2) 0)"
    unfolding ia cell_get[OF n len i2]
    using filled_nth[OF f i2] i by simp
  have s: "vec_set work (int i) v = Inr (work[i := v])" for v
    by (subst ib, subst cell_set[OF n len i(2) i2(2)]) simp
  show ?thesis
    unfolding coef_row_def a by (simp add: s)
qed

lemma row_step:
  assumes n: "0 \<le> n" and f: "filled (nat n + 1) i 0 work" and i: "2 \<le> i" "i < nat n + 1"
    and chk: "row_check i (hermite_row (i - 2)) (hermite_row (i - 1))"
  shows "\<exists>work'. coef_row n (int i) work = Inr work' \<and> filled (nat n + 1) (Suc i) 0 work'"
proof -
  let ?N = "nat n + 1"
  have m: "long_mul (- 2 * (int i - 1)) (hermite_coef (i - 2) 0) = Inr (hermite_coef i 0)"
    by (rule row_check_entry(2)[OF chk i(1)]) simp_all
  have "filled ?N i (Suc 0) (work[i + 0 * ?N := hermite_coef i 0])"
    using i by (intro filled_update[OF f]) simp_all
  then have f1: "filled ?N i 1 (work[i := hermite_coef i 0])" by simp
  have "\<exists>work'. for_loop 1 (int (i + 1)) (coef_entry n (int i)) (work[i := hermite_coef i 0]) = Inr work'
      \<and> filled ?N i (i + 1) work'"
  proof (rule inner_loop[OF n f1 i])
    show "1 \<le> i + 1" "i + 1 \<le> i + 1" by simp_all
    fix j assume "1 \<le> j" "j < i + 1"
    then show "coef_value (int i) (hermite_coef (i - 1) (j - 1)) (hermite_coef (i - 2) j)
        = Inr (hermite_coef i j)"
      by (intro row_check_entry(3)[OF chk i(1)]) simp_all
  qed
  then obtain work' where
    w0: "for_loop 1 (int (i + 1)) (coef_entry n (int i)) (work[i := hermite_coef i 0]) = Inr work'"
    and fw0: "filled ?N i (i + 1) work'"
    by blast
  have e: "int (i + 1) = int i + 1" "i + 1 = Suc i" by simp_all
  note w = w0[unfolded e(1)] and fw = fw0[unfolded e(2)]
  have "coef_row n (int i) work = Inr work'"
    unfolding coef_row_eq[OF n f i] m by (simp only: and_then_Inr w)
  with filled_next_row[OF fw] show ?thesis by blast
qed

lemma outer_loop:
  assumes n: "0 \<le> n" and f: "filled (nat n + 1) 2 0 work"
    and H: "2 \<le> H" "H \<le> nat n + 1"
    and chk: "\<And>i. 2 \<le> i \<Longrightarrow> i < H \<Longrightarrow> row_check i (hermite_row (i - 2)) (hermite_row (i - 1))"
  shows "\<exists>work'. for_loop 2 (int H) (coef_row n) work = Inr work' \<and> filled (nat n + 1) H 0 work'"
proof -
  let ?N = "nat n + 1"
  let ?P = "\<lambda>i' w. filled ?N (nat i') 0 w"
  have "\<exists>work'. for_loop 2 (int H) (coef_row n) work = Inr work' \<and> ?P (int H) work'"
  proof (rule for_loop_invariant)
    show "2 \<le> int H" using H by simp
    show "?P 2 work" using f by simp
  next
    fix i' t assume i': "2 \<le> i'" "i' < int H" and P: "?P i' t"
    let ?i = "nat i'"
    have ii: "int ?i = i'" using i' by simp
    have i: "2 \<le> ?i" "?i < ?N" "?i < H" using i' H by simp_all
    from row_step[OF n P i(1,2) chk[OF i(1,3)]]
    obtain t' where "coef_row n (int ?i) t = Inr t'" "filled ?N (Suc ?i) 0 t'" by blast
    moreover have "nat (i' + 1) = Suc ?i" using i' by simp
    ultimately show "\<exists>t'. coef_row n i' t = Inr t' \<and> ?P (i' + 1) t'"
      unfolding ii by simp
  qed
  then show ?thesis by simp
qed

subsection \<open>The whole function\<close>

lemma init_workspace:
  assumes n: "2 \<le> n"
  shows "\<exists>W. and_then (vec_set (replicate ((nat n + 1) * (nat n + 1)) 0) 0 1) (\<lambda>w.
         and_then (vec_set w 1 0) (\<lambda>w. vec_set w (1 + 1 * (n + 1)) 2)) = Inr W
     \<and> filled (nat n + 1) 2 0 W"
proof -
  let ?N = "nat n + 1"
  let ?W0 = "replicate (?N * ?N) (0::int)"
  let ?W1 = "?W0[0 + 0 * ?N := hermite_coef 0 0]"
  let ?W2 = "?W1[1 + 0 * ?N := hermite_coef 1 0]"
  let ?W3 = "?W2[1 + 1 * ?N := hermite_coef 1 1]"
  have n0: "0 \<le> n" and N: "0 < ?N" "1 < ?N" using n by simp_all
  have f1: "filled ?N 0 (Suc 0) ?W1"
    by (rule filled_update[OF filled_zero N(1) N(1)])
  have g1: "filled ?N 1 0 ?W1"
    using filled_next_row[OF f1] by simp
  have f2: "filled ?N 1 (Suc 0) ?W2"
    by (rule filled_update[OF g1 N(2) N(1)])
  have N1: "Suc 0 < ?N" using n by simp
  have f3: "filled ?N 1 (Suc (Suc 0)) ?W3"
    using filled_update[OF f2 N(2) N1] by simp
  have g3: "filled ?N 2 0 ?W3"
    using filled_next_row[of ?N 1 ?W3] f3 by (simp add: numeral_2_eq_2)
  have s1: "vec_set ?W0 0 1 = Inr ?W1"
    using cell_set[OF n0 _ N(1) N(1), of ?W0 1] by simp
  have s2: "vec_set ?W1 1 0 = Inr ?W2"
    using cell_set[OF n0 filled_length[OF f1] N(2) N(1), of 0] by simp
  have s3: "vec_set ?W2 (1 + 1 * (n + 1)) 2 = Inr ?W3"
    using cell_set[OF n0 filled_length[OF f2] N(2) N(2), of 2] by simp
  have "and_then (vec_set ?W0 0 1) (\<lambda>w.
         and_then (vec_set w 1 0) (\<lambda>w. vec_set w (1 + 1 * (n + 1)) 2)) = Inr ?W3"
    by (simp only: s1 s2 s3 and_then_Inr)
  with g3 show ?thesis by blast
qed

lemma int_mul_square:
  assumes "a * a < 2 ^ 31"
  shows "int_mul a a = Inr (a * a)"
proof -
  have "- (2 ^ 31) \<le> a * a"
    by (rule order_trans[of _ 0]) simp_all
  then show ?thesis using assms by (simp add: int_mul_def)
qed

text \<open>
  For \<open>n \<ge> 2\<close> the function is the outer loop on a workspace that holds the rows 0 and 1,
  followed by the loop that copies row \<open>n\<close> into \<open>c\<close>.
\<close>

lemma hermitePolyCoef_loops:
  assumes n: "2 \<le> n" and size: "(n + 1) * (n + 1) < 2 ^ 31"
  shows "\<exists>W. filled (nat n + 1) 2 0 W
    \<and> (\<forall>c. hermitePolyCoef n c =
          and_then (for_loop 2 (n + 1) (coef_row n) W) (\<lambda>work.
          for_loop 0 (n + 1) (\<lambda>j c.
            and_then (vec_get work (n + j * (n + 1))) (\<lambda>v.
            vec_set c j (real_of_int (long_to_double v)))) c))"
proof -
  let ?N = "nat n + 1"
  let ?W0 = "replicate (?N * ?N) (0::int)"
  have sz: "nat ((n + 1) * (n + 1)) = ?N * ?N"
    using n by (simp add: nat_mult_distrib nat_add_distrib)
  have nn0: "0 \<le> (n + 1) * (n + 1)" by simp
  have l0: "for_loop 0 ((n + 1) * (n + 1)) (\<lambda>i work. vec_set work i 0) ?W0 = Inr ?W0"
    using for_loop_tabulate[OF nn0, of ?W0 "\<lambda>i. 0"]
    by (simp add: sz map_replicate_const)
  from init_workspace[OF n] obtain W where
    W: "and_then (vec_set ?W0 0 1) (\<lambda>w.
         and_then (vec_set w 1 0) (\<lambda>w. vec_set w (1 + 1 * (n + 1)) 2)) = Inr W"
    and f: "filled ?N 2 0 W"
    by blast
  have "hermitePolyCoef n c =
          and_then (for_loop 2 (n + 1) (coef_row n) W) (\<lambda>work.
          for_loop 0 (n + 1) (\<lambda>j c.
            and_then (vec_get work (n + j * (n + 1))) (\<lambda>v.
            vec_set c j (real_of_int (long_to_double v)))) c)" for c
  proof -
    have nv: "new_vector ((n + 1) * (n + 1)) (0::int) = Inr ?W0"
      by (simp add: new_vector_def sz)
    have ne: "(n = 0) = False" "(n = 1) = False" using n by simp_all
    have "hermitePolyCoef n c =
        and_then (and_then (vec_set ?W0 0 1) (\<lambda>w.
           and_then (vec_set w 1 0) (\<lambda>w. vec_set w (1 + 1 * (n + 1)) 2))) (\<lambda>work.
        and_then (for_loop 2 (n + 1) (coef_row n) work) (\<lambda>work.
          for_loop 0 (n + 1) (\<lambda>j c.
            and_then (vec_get work (n + j * (n + 1))) (\<lambda>v.
            vec_set c j (real_of_int (long_to_double v)))) c))"
      unfolding hermitePolyCoef_def int_mul_square[OF size] and_then_Inr nv l0 ne if_False
      by (simp add: and_then_def split: sum.splits)
    then show ?thesis unfolding W by simp
  qed
  with f show ?thesis by blast
qed

lemma extract_row:
  assumes n: "0 \<le> n" and f: "filled (nat n + 1) (nat n + 1) 0 work"
    and c: "nat n + 1 \<le> length c"
    and cast: "\<And>j. j \<le> nat n \<Longrightarrow>
      long_to_double (hermite_coef (nat n) j) = hermite_coef (nat n) j"
  shows "for_loop 0 (n + 1) (\<lambda>j c.
            and_then (vec_get work (n + j * (n + 1))) (\<lambda>v.
            vec_set c j (real_of_int (long_to_double v)))) c
    = Inr (map (\<lambda>j. real_of_int (hermite_coef (nat n) j)) [0..<nat n + 1] @ drop (nat n + 1) c)"
proof -
  let ?N = "nat n + 1"
  let ?g = "\<lambda>j. real_of_int (hermite_coef (nat n) (nat j))"
  have "for_loop 0 (n + 1) (\<lambda>j c.
            and_then (vec_get work (n + j * (n + 1))) (\<lambda>v.
            vec_set c j (real_of_int (long_to_double v)))) c
      = for_loop 0 (n + 1) (\<lambda>j c. vec_set c j (?g j)) c"
  proof (rule for_loop_cong)
    fix j t assume j: "0 \<le> j" "j < n + 1"
    have jn: "nat j < ?N" "nat n < ?N" "nat j \<le> nat n" using j n by simp_all
    have e: "n + j * (n + 1) = int (nat n) + int (nat j) * (n + 1)" using j n by simp
    have "vec_get work (n + j * (n + 1)) = Inr (hermite_coef (nat n) (nat j))"
      unfolding e cell_get[OF n filled_length[OF f] jn(2) jn(1)]
      using filled_nth[OF f jn(2) jn(1)] by simp
    then show "and_then (vec_get work (n + j * (n + 1))) (\<lambda>v.
            vec_set t j (real_of_int (long_to_double v))) = vec_set t j (?g j)"
      by (simp add: cast[OF jn(3)])
  qed
  also have "\<dots> = Inr (map (\<lambda>k. ?g (int k)) [0..<nat (n + 1)] @ drop (nat (n + 1)) c)"
    by (rule for_loop_tabulate) (use n c in \<open>simp_all add: nat_add_distrib\<close>)
  finally show ?thesis using n by (simp add: nat_add_distrib)
qed

text \<open>
  When the machine arithmetic is exact on the rows \<open>2..n\<close>, the function returns the
  coefficients of the exact recurrence.
\<close>

lemma hermitePolyCoef_exact:
  assumes n: "0 \<le> n" and size: "(n + 1) * (n + 1) < 2 ^ 31"
    and chk: "\<And>i. 2 \<le> i \<Longrightarrow> i \<le> nat n \<Longrightarrow> row_check i (hermite_row (i - 2)) (hermite_row (i - 1))"
    and c: "nat n + 1 \<le> length c"
  shows "hermitePolyCoef n c
    = Inr (map (\<lambda>j. real_of_int (hermite_coef (nat n) j)) [0..<nat n + 1] @ drop (nat n + 1) c)"
proof -
  consider "n = 0" | "n = 1" | "2 \<le> n" using n by linarith
  then show ?thesis
  proof cases
    case 1
    have sz: "int_mul 1 1 = Inr 1" by (simp add: int_mul_def)
    obtain a cs where cc: "c = a # cs"
      using c 1 by (cases c) auto
    show ?thesis
      using 1 by (simp add: hermitePolyCoef_def sz new_vector_def for_loop_step for_loop_done vec_set_def cc)
  next
    case 2
    have sz: "int_mul 2 2 = Inr 4" by (simp add: int_mul_def)
    have l0: "for_loop 0 4 (\<lambda>i work. vec_set work i 0) (replicate 4 (0::int)) = Inr (replicate 4 0)"
      using for_loop_tabulate[of 4 "replicate 4 (0::int)" "\<lambda>i. 0"] by (simp add: map_replicate_const)
    obtain a b cs where cc: "c = a # b # cs"
      using c 2 by (cases c; cases "tl c") auto
    have s: "and_then (vec_set (a # b # cs) 0 0) (\<lambda>c. vec_set c 1 2) = Inr (0 # 2 # cs)"
      by (simp add: vec_set_def)
    show ?thesis
      using 2 by (simp add: hermitePolyCoef_def sz new_vector_def l0 s cc upt_2)
  next
    case 3
    let ?N = "nat n + 1"
    from hermitePolyCoef_loops[OF 3 size] obtain W where f: "filled ?N 2 0 W"
      and run: "hermitePolyCoef n c =
          and_then (for_loop 2 (n + 1) (coef_row n) W) (\<lambda>work.
          for_loop 0 (n + 1) (\<lambda>j c.
            and_then (vec_get work (n + j * (n + 1))) (\<lambda>v.
            vec_set c j (real_of_int (long_to_double v)))) c)"
      by blast
    have "\<exists>work'. for_loop 2 (int ?N) (coef_row n) W = Inr work' \<and> filled ?N ?N 0 work'"
      by (rule outer_loop[OF n f]) (use 3 chk in simp_all)
    then obtain work' where w0: "for_loop 2 (int ?N) (coef_row n) W = Inr work'"
      and fw: "filled ?N ?N 0 work'" by blast
    have e: "int ?N = n + 1" using n by simp
    note w = w0[unfolded e]
    have n2: "2 \<le> nat n" using 3 by simp
    have cast: "long_to_double (hermite_coef (nat n) j) = hermite_coef (nat n) j" if "j \<le> nat n" for j
      by (rule row_check_entry(1)[OF chk[OF n2 order_refl] n2 that])
    show ?thesis
      unfolding run w by (simp only: and_then_Inr extract_row[OF n fw c cast])
  qed
qed

subsection \<open>Orders up to 25, and order 26\<close>

text \<open>The machine arithmetic is exact on all rows up to row 25.\<close>

lemma exact_rows_24: "exact_rows 24 = Some (coef_24, coef_25)"
  by code_simp

text \<open>
  On row 26 it is exact for the entries 0 to 5; the entry 6 is \<open>9878783586287616000\<close>,
  above \<open>2\<^sup>6\<^sup>3\<close>, and the conversion of the double to \<^verbatim>\<open>long\<close> is out of range.
\<close>

lemma row_26_start: "list_all (entry_check 26 coef_24 coef_25) [0, 1, 2, 3, 4, 5]"
  by code_simp

lemma row_26_overflow: "coef_value 26 (coef_25 ! 5) (coef_24 ! 6) = Inl ConversionRange"
  by code_simp

lemma rows_to_25:
  shows hermite_row_24: "hermite_row 24 = coef_24"
    and hermite_row_25: "hermite_row 25 = coef_25"
    and rows_checked:
      "\<And>i. 2 \<le> i \<Longrightarrow> i \<le> 25 \<Longrightarrow> row_check i (hermite_row (i - 2)) (hermite_row (i - 1))"
  using exact_rows_sound[OF exact_rows_24] by simp_all

lemma square_size:
  assumes "0 \<le> n" and "n \<le> (25::int)"
  shows "(n + 1) * (n + 1) < 2 ^ 31"
proof -
  have "(n + 1) * (n + 1) \<le> 26 * 26"
    using assms by (intro mult_mono) simp_all
  then show ?thesis by simp
qed

lemma hermitePolyCoef_to_25:
  assumes "0 \<le> n" and "n \<le> 25" and "nat n + 1 \<le> length c"
  shows "hermitePolyCoef n c
    = Inr (map real_of_int (hermite_row (nat n)) @ drop (nat n + 1) c)"
proof -
  have "row_check i (hermite_row (i - 2)) (hermite_row (i - 1))" if "2 \<le> i" "i \<le> nat n" for i
    using that assms(2) by (intro rows_checked) simp_all
  from hermitePolyCoef_exact[OF assms(1) square_size[OF assms(1,2)] this assms(3)]
  show ?thesis by (simp add: hermite_row_def)
qed

lemma hermite_rows_0_to_4:
  "hermite_row 0 = [1]" "hermite_row 1 = [0, 2]" "hermite_row 2 = [- 2, 0, 4]"
  "hermite_row 3 = [0, - 12, 0, 8]" "hermite_row 4 = [12, 0, - 48, 0, 16]"
  by code_simp+

text \<open>
  At an order of 26 or more the row 26 is reached with the rows 24 and 25 in place; its
  entries 0 to 5 are written and the entry 6 stops the function.
\<close>

lemma row_26_entries:
  assumes "j < 6"
  shows "entry_check 26 (hermite_row (26 - 2)) (hermite_row (26 - 1)) j"
proof -
  from assms have "j \<in> set [0, 1, 2, 3, 4, 5::nat]" by auto
  with row_26_start have "entry_check 26 coef_24 coef_25 j"
    unfolding list_all_iff by blast
  then show ?thesis by (simp add: hermite_row_24 hermite_row_25)
qed

lemma row_26_fault:
  "coef_value (int 26) (hermite_coef (26 - 1) (6 - 1)) (hermite_coef (26 - 2) 6)
    = Inl ConversionRange"
proof -
  have a: "hermite_coef 25 5 = coef_25 ! 5"
    unfolding hermite_row_25[symmetric] by (simp add: hermite_row_nth)
  have b: "hermite_coef 24 6 = coef_24 ! 6"
    unfolding hermite_row_24[symmetric] by (simp add: hermite_row_nth)
  show ?thesis using row_26_overflow by (simp add: a b)
qed

lemma hermitePolyCoef_overflow:
  assumes n: "26 \<le> n" and size: "(n + 1) * (n + 1) < 2 ^ 31"
  shows "hermitePolyCoef n c = Inl ConversionRange"
proof -
  let ?N = "nat n + 1"
  have n0: "0 \<le> n" and n2: "2 \<le> n" using n by simp_all
  have i: "2 \<le> (26::nat)" "26 < ?N" using n by simp_all
  from hermitePolyCoef_loops[OF n2 size] obtain W
    where W: "filled ?N 2 0 W"
      and run: "\<And>c. hermitePolyCoef n c =
          and_then (for_loop 2 (n + 1) (coef_row n) W) (\<lambda>work.
          for_loop 0 (n + 1) (\<lambda>j c.
            and_then (vec_get work (n + j * (n + 1))) (\<lambda>v.
            vec_set c j (real_of_int (long_to_double v)))) c)"
    by blast
  have "\<exists>w. for_loop 2 (int 26) (coef_row n) W = Inr w \<and> filled ?N 26 0 w"
  proof (rule outer_loop[OF n0 W])
    show "2 \<le> (26::nat)" by simp
    show "26 \<le> ?N" using n by simp
    show "row_check i (hermite_row (i - 2)) (hermite_row (i - 1))" if "2 \<le> i" "i < 26" for i
      using that by (intro rows_checked) simp_all
  qed
  then obtain w where w: "for_loop 2 (int 26) (coef_row n) W = Inr w" and fw: "filled ?N 26 0 w"
    by blast
  have first: "long_mul (- 2 * (int 26 - 1)) (hermite_coef (26 - 2) 0) = Inr (hermite_coef 26 0)"
    by (rule entry_check_exact(2)[OF row_26_entries]) simp_all
  have f1: "filled ?N 26 (Suc 0) (w[26 + 0 * ?N := hermite_coef 26 0])"
    by (rule filled_update[OF fw i(2)]) simp
  then have f1': "filled ?N 26 1 (w[26 := hermite_coef 26 0])" by simp
  have "\<exists>v. for_loop 1 (int 6) (coef_entry n (int 26)) (w[26 := hermite_coef 26 0]) = Inr v
      \<and> filled ?N 26 6 v"
  proof (rule inner_loop[OF n0 f1' i])
    show "1 \<le> (6::nat)" "6 \<le> (26::nat) + 1" by simp_all
    show "coef_value (int 26) (hermite_coef (26 - 1) (j - 1)) (hermite_coef (26 - 2) j)
        = Inr (hermite_coef 26 j)" if "1 \<le> j" "j < 6" for j
      using that by (intro entry_check_exact(3)[OF row_26_entries]) simp_all
  qed
  then obtain v
    where v: "for_loop 1 (int 6) (coef_entry n (int 26)) (w[26 := hermite_coef 26 0]) = Inr v"
      and fv: "filled ?N 26 6 v"
    by blast
  have "coef_entry n (int 26) (int 6) v =
    and_then (coef_value (int 26) (hermite_coef (26 - 1) (6 - 1)) (hermite_coef (26 - 2) 6))
      (\<lambda>a. Inr (v[26 + 6 * ?N := a]))"
    by (rule coef_entry_eq[OF n0 fv i]) simp_all
  then have entry: "coef_entry n (int 26) (int 6) v = Inl ConversionRange"
    unfolding row_26_fault by simp
  have inner: "for_loop 1 (int 26 + 1) (coef_entry n (int 26)) (w[26 := hermite_coef 26 0])
      = Inl ConversionRange"
  proof -
    have "for_loop (int 6) (int 26 + 1) (coef_entry n (int 26)) v = Inl ConversionRange"
      using entry by (intro for_loop_first_fault) simp_all
    moreover have "for_loop 1 (int 26 + 1) (coef_entry n (int 26)) (w[26 := hermite_coef 26 0])
      = and_then (for_loop 1 (int 6) (coef_entry n (int 26)) (w[26 := hermite_coef 26 0]))
          (for_loop (int 6) (int 26 + 1) (coef_entry n (int 26)))"
      by (rule for_loop_split) simp_all
    ultimately show ?thesis unfolding v by simp
  qed
  have row: "coef_row n (int 26) w = Inl ConversionRange"
    unfolding coef_row_eq[OF n0 fw i] first using inner by simp
  have "for_loop (int 26) (n + 1) (coef_row n) w = Inl ConversionRange"
    using row n by (intro for_loop_first_fault) simp_all
  moreover have "for_loop 2 (n + 1) (coef_row n) W
      = and_then (for_loop 2 (int 26) (coef_row n) W) (for_loop (int 26) (n + 1) (coef_row n))"
    by (rule for_loop_split) (use n in simp_all)
  ultimately have "for_loop 2 (n + 1) (coef_row n) W = Inl ConversionRange"
    unfolding w by simp
  then show ?thesis unfolding run by simp
qed

lemma hermite_coef_26_6: "hermite_coef 26 6 = 9878783586287616000"
proof -
  have a: "hermite_coef 25 5 = coef_25 ! 5"
    unfolding hermite_row_25[symmetric] by (simp add: hermite_row_nth)
  have b: "hermite_coef 24 6 = coef_24 ! 6"
    unfolding hermite_row_24[symmetric] by (simp add: hermite_row_nth)
  have "hermite_coef 26 6 = 2 * hermite_coef (26 - 1) (6 - 1) - 2 * (int 26 - 1) * hermite_coef (26 - 2) 6"
    by (rule hermite_coef_rec) simp_all
  then show ?thesis by (simp add: a b coef_24_def coef_25_def)
qed

text \<open>
  Claim C6, for the orders 0 to 25. \<^verbatim>\<open>hermitePolyCoef(n, &c)\<close> on a vector \<open>c\<close> of \<open>n + 1\<close>
  entries returns normally, and \<open>c\<close> then holds the row \<open>n\<close> of the two-index recurrence
  with the bases \<open>H\<^sub>0 = [1]\<close> and \<open>H\<^sub>1 = [0, 2]\<close> (\<open>hermite_coef\<close>), cast to double, which has
  \<open>n + 1\<close> entries. The rows 0 to 4 are the closed forms \<open>[1]\<close>, \<open>[0, 2]\<close>, \<open>[-2, 0, 4]\<close>,
  \<open>[0, -12, 0, 8]\<close> and \<open>[12, 0, -48, 0, 16]\<close>.
\<close>

theorem hermitePolyCoef_recurrence:
  assumes "0 \<le> n" and "n \<le> 25" and "length c = nat n + 1"
  shows "hermitePolyCoef n c = Inr (map real_of_int (hermite_row (nat n)))
    \<and> length (hermite_row (nat n)) = nat n + 1
    \<and> hermite_row 0 = [1] \<and> hermite_row 1 = [0, 2] \<and> hermite_row 2 = [- 2, 0, 4]
    \<and> hermite_row 3 = [0, - 12, 0, 8] \<and> hermite_row 4 = [12, 0, - 48, 0, 16]"
proof -
  have "hermitePolyCoef n c = Inr (map real_of_int (hermite_row (nat n)) @ drop (nat n + 1) c)"
    using assms by (intro hermitePolyCoef_to_25) simp_all
  then have "hermitePolyCoef n c = Inr (map real_of_int (hermite_row (nat n)))"
    using assms(3) by simp
  then show ?thesis
    by (intro conjI length_hermite_row hermite_rows_0_to_4)
qed

theorem hermitePolyCoef_recurrence_witness:
  "hermitePolyCoef 0 [0] = Inr [1]
   \<and> hermitePolyCoef 1 [0, 0] = Inr [0, 2]
   \<and> hermitePolyCoef 2 [0, 0, 0] = Inr [- 2, 0, 4]
   \<and> hermitePolyCoef 3 [0, 0, 0, 0] = Inr [0, - 12, 0, 8]
   \<and> hermitePolyCoef 4 [0, 0, 0, 0, 0] = Inr [12, 0, - 48, 0, 16]"
  using hermitePolyCoef_recurrence[of 0 "[0]"] hermitePolyCoef_recurrence[of 1 "[0, 0]"]
    hermitePolyCoef_recurrence[of 2 "[0, 0, 0]"] hermitePolyCoef_recurrence[of 3 "[0, 0, 0, 0]"]
    hermitePolyCoef_recurrence[of 4 "[0, 0, 0, 0, 0]"]
  by simp

text \<open>
  Claim C6 fails at the order 26: the coefficient of \<open>x\<^sup>6\<close> in \<open>H\<^sub>2\<^sub>6\<close> does not fit a
  \<^verbatim>\<open>long\<close>, and the function does not fill the vector.
\<close>

theorem hermitePolyCoef_order_26:
  "hermitePolyCoef 26 (replicate 27 0) = Inl ConversionRange
   \<and> hermite_coef 26 6 = 9878783586287616000
   \<and> (2::int) ^ 63 \<le> 9878783586287616000"
proof -
  have "hermitePolyCoef 26 (replicate 27 0) = Inl ConversionRange"
    by (rule hermitePolyCoef_overflow) simp_all
  then show ?thesis by (simp add: hermite_coef_26_6)
qed

section \<open>The wrappers\<close>

lemma findPolyRoots_SEXP_eq:
  assumes "c \<noteq> []"
  shows "findPolyRoots_SEXP dgeev c =
    and_then (findPolyRoots dgeev c (int (length c) - 1) (replicate (length c - 1) 0))
      (\<lambda>r. Inr (replicate (length c - 1) 0))"
proof -
  from assms have "0 < length c" by simp
  then have "\<not> int (length c) - 1 < 0" and "nat (int (length c) - 1) = length c - 1"
    by simp_all
  then show ?thesis
    unfolding findPolyRoots_SEXP_def Let_def new_vector_def by simp
qed

lemma hermitePolyCoef_SEXP_eq:
  assumes "0 \<le> n"
  shows "hermitePolyCoef_SEXP n =
    and_then (hermitePolyCoef n (replicate (nat n + 1) 0)) (\<lambda>c. Inr (replicate (nat n + 1) 0))"
proof -
  from assms have "\<not> n + 1 < 0" and "nat (n + 1) = nat n + 1" by simp_all
  then show ?thesis
    unfolding hermitePolyCoef_SEXP_def Let_def new_vector_def by simp
qed

lemma findPolyRoots_returns:
  assumes n: "0 \<le> n" and nn: "n * n < 2 ^ 31" and c: "nat n < length c"
    and r: "length r = nat n" and sz: "dgeev_sizes dgeev n"
  shows "\<exists>r'. findPolyRoots dgeev c n r = Inr r' \<and> length r' = nat n"
proof -
  from companion_eq[OF n nn c] obtain C where C: "companion c n = Inr C" by blast
  let ?res = "dgeev (dgeev_call n C \<lfloor>gv_WORK1 (dgeev (dgeev_call n C (- 1)))\<rfloor>)"
  have "findPolyRoots dgeev c n r = Inr (gv_WR ?res @ drop (nat n) r)"
    by (rule findPolyRoots_eq[OF C n sz]) (simp add: r)
  moreover have "length (gv_WR ?res) = nat n"
    using sz by (simp add: dgeev_sizes_def dgeev_call_def)
  ultimately show ?thesis using r by simp
qed

text \<open>
  Claim C4, for a coefficient vector \<open>c\<close> of \<open>n \<ge> 1\<close> entries (with \<open>(n - 1)\<^sup>2\<close> in the range
  of \<^verbatim>\<open>int\<close> and a \<^verbatim>\<open>dgeev\<close> that keeps to its documented sizes) and for an order between 0
  and 25. Each wrapper runs the computation on the copy of its zero vector and returns
  the zero vector itself: \<open>n - 1\<close> zeros from \<^verbatim>\<open>findPolyRoots\<close> and \<open>n + 1\<close> zeros from
  \<^verbatim>\<open>hermitePolyCoef\<close>, although the copy, which is dropped, then holds the row \<open>n\<close> of the
  recurrence.
\<close>

theorem wrappers_return_zeros:
  assumes "c \<noteq> []" and "(int (length c) - 1) * (int (length c) - 1) < 2 ^ 31"
    and "dgeev_sizes dgeev (int (length c) - 1)" and "0 \<le> n" and "n \<le> 25"
  shows "findPolyRoots_SEXP dgeev c = Inr (replicate (length c - 1) 0)
    \<and> findPolyRoots_SEXP dgeev c =
        and_then (findPolyRoots dgeev c (int (length c) - 1) (replicate (length c - 1) 0))
          (\<lambda>r. Inr (replicate (length c - 1) 0))
    \<and> hermitePolyCoef_SEXP n = Inr (replicate (nat n + 1) 0)
    \<and> hermitePolyCoef_SEXP n =
        and_then (hermitePolyCoef n (replicate (nat n + 1) 0))
          (\<lambda>c. Inr (replicate (nat n + 1) 0))
    \<and> hermitePolyCoef n (replicate (nat n + 1) 0) = Inr (map real_of_int (hermite_row (nat n)))"
proof -
  let ?m = "int (length c) - 1"
  from assms(1) have pos: "0 < length c" by simp
  then have m: "0 \<le> ?m" "nat ?m = length c - 1" by simp_all
  from pos have m3: "nat ?m < length c" unfolding m(2) by simp
  have "\<exists>r'. findPolyRoots dgeev c ?m (replicate (length c - 1) 0) = Inr r' \<and> length r' = nat ?m"
    by (rule findPolyRoots_returns[OF m(1) assms(2) m3 _ assms(3)]) (simp add: m(2))
  then have roots: "findPolyRoots_SEXP dgeev c = Inr (replicate (length c - 1) 0)"
    unfolding findPolyRoots_SEXP_eq[OF assms(1)] by auto
  have "hermitePolyCoef n (replicate (nat n + 1) 0)
      = Inr (map real_of_int (hermite_row (nat n)) @ drop (nat n + 1) (replicate (nat n + 1) 0))"
    by (rule hermitePolyCoef_to_25[OF assms(4,5)]) simp
  then have coef: "hermitePolyCoef n (replicate (nat n + 1) 0)
      = Inr (map real_of_int (hermite_row (nat n)))"
    by simp
  then have zeros: "hermitePolyCoef_SEXP n = Inr (replicate (nat n + 1) 0)"
    unfolding hermitePolyCoef_SEXP_eq[OF assms(4)] by simp
  show ?thesis
    by (intro conjI roots zeros coef findPolyRoots_SEXP_eq[OF assms(1)]
        hermitePolyCoef_SEXP_eq[OF assms(4)])
qed

theorem wrappers_return_zeros_witness:
  "findPolyRoots_SEXP (\<lambda>a. \<lparr>gv_WR = [1, 2], gv_WI = [0, 0], gv_WORK1 = 68, gv_INFO = 0\<rparr>)
      [2, - 3, 1] = Inr [0, 0]
   \<and> hermitePolyCoef_SEXP 2 = Inr [0, 0, 0]
   \<and> hermitePolyCoef 2 [0, 0, 0] = Inr [- 2, 0, 4]"
  using wrappers_return_zeros[of "[2, - 3, 1]"
      "\<lambda>a. \<lparr>gv_WR = [1, 2], gv_WI = [0, 0], gv_WORK1 = 68, gv_INFO = 0\<rparr>" 2]
  by (simp add: dgeev_sizes_def replicate_2 replicate_3 hermite_rows_0_to_4)

text \<open>
  Claim C4 does not hold for every input. On an empty coefficient vector, and on an order
  below \<open>- 1\<close>, the zero vector cannot be allocated (its length would be negative); on
  46342 coefficients the size \<open>46341\<^sup>2\<close> of the companion matrix overflows \<^verbatim>\<open>int\<close>; on the
  order \<open>- 1\<close> the computation writes \<^verbatim>\<open>work[0]\<close> in an empty workspace; on the order 26 it
  converts a double outside the range of \<^verbatim>\<open>long\<close>.
\<close>

theorem wrappers_counterexample:
  "findPolyRoots_SEXP (\<lambda>a. \<lparr>gv_WR = [], gv_WI = [], gv_WORK1 = 1, gv_INFO = 0\<rparr>) []
      = Inl LengthError
   \<and> findPolyRoots_SEXP (\<lambda>a. \<lparr>gv_WR = [], gv_WI = [], gv_WORK1 = 1, gv_INFO = 0\<rparr>)
        (replicate 46342 1) = Inl SignedOverflow
   \<and> hermitePolyCoef_SEXP (- 2) = Inl LengthError
   \<and> hermitePolyCoef_SEXP (- 1) = Inl OutOfBounds
   \<and> hermitePolyCoef_SEXP 26 = Inl ConversionRange"
proof -
  have "findPolyRoots_SEXP (\<lambda>a. \<lparr>gv_WR = [], gv_WI = [], gv_WORK1 = 1, gv_INFO = 0\<rparr>) []
      = Inl LengthError"
    by (simp add: findPolyRoots_SEXP_def new_vector_def)
  moreover have "findPolyRoots_SEXP (\<lambda>a. \<lparr>gv_WR = [], gv_WI = [], gv_WORK1 = 1, gv_INFO = 0\<rparr>)
        (replicate 46342 1) = Inl SignedOverflow"
    by (simp add: findPolyRoots_SEXP_def new_vector_def findPolyRoots_def companion_def int_mul_def)
  moreover have "hermitePolyCoef_SEXP (- 2) = Inl LengthError"
    by (simp add: hermitePolyCoef_SEXP_def new_vector_def)
  moreover have "hermitePolyCoef_SEXP (- 1) = Inl OutOfBounds"
    by (simp add: hermitePolyCoef_SEXP_def hermitePolyCoef_def new_vector_def int_mul_def
        for_loop_done vec_set_def)
  moreover have "hermitePolyCoef 26 (replicate (nat 26 + 1) 0) = Inl ConversionRange"
    by (rule hermitePolyCoef_overflow) simp_all
  then have "hermitePolyCoef_SEXP 26 = Inl ConversionRange"
    unfolding hermitePolyCoef_SEXP_eq[of 26, simplified] by simp
  ultimately show ?thesis by blast
qed

section \<open>The direct engine\<close>

lemma hermite_coef_lead_step: "hermite_coef (Suc i) (Suc i) = 2 * hermite_coef i i"
proof (cases i)
  case 0
  then show ?thesis by simp
next
  case (Suc k)
  then show ?thesis by (simp add: hermite_coef_zero)
qed

lemma hermite_coef_lead: "hermite_coef i i = 2 ^ i"
proof (induction i)
  case 0
  show ?case by simp
next
  case (Suc i)
  show ?case unfolding hermite_coef_lead_step Suc by simp
qed

text \<open>The loop of the weights overwrites \<open>w[i]\<close> twice: with the log-weight, then with its exponential.\<close>

lemma weight_loop:
  assumes n: "0 \<le> n" and xs: "nat n \<le> length xs" and w: "nat n \<le> length w"
    and H: "\<And>y. hermitePoly y (n - 1) = Inr (H y)"
  shows "for_loop 0 n (\<lambda>i w.
         and_then (vec_get xs i) (\<lambda>xi.
         and_then (hermitePoly xi (n - 1)) (\<lambda>h.
         and_then (vec_set w i (log_weight n h)) (\<lambda>w.
         and_then (vec_get w i) (\<lambda>wi.
         vec_set w i (map_option exp wi)))))) w
    = Inr (map (\<lambda>k. map_option exp (log_weight n (H (xs ! k)))) [0..<nat n] @ drop (nat n) w)"
proof -
  let ?f = "\<lambda>i. map_option exp (log_weight n (H (xs ! nat i)))"
  have "for_loop 0 n (\<lambda>i w.
         and_then (vec_get xs i) (\<lambda>xi.
         and_then (hermitePoly xi (n - 1)) (\<lambda>h.
         and_then (vec_set w i (log_weight n h)) (\<lambda>w.
         and_then (vec_get w i) (\<lambda>wi.
         vec_set w i (map_option exp wi)))))) w
    = for_loop 0 n (\<lambda>i w. vec_set w i (?f i)) w"
  proof (rule for_loop_cong)
    fix i and t :: "real option list"
    assume i: "0 \<le> i" "i < n"
    let ?k = "nat i"
    have ik: "int ?k = i" using i by simp
    have "?k < length xs" using i xs by simp
    from vec_get_nat[OF this] have gx: "vec_get xs i = Inr (xs ! ?k)" unfolding ik .
    show "and_then (vec_get xs i) (\<lambda>xi.
         and_then (hermitePoly xi (n - 1)) (\<lambda>h.
         and_then (vec_set t i (log_weight n h)) (\<lambda>w.
         and_then (vec_get w i) (\<lambda>wi.
         vec_set w i (map_option exp wi))))) = vec_set t i (?f i)"
    proof (cases "?k < length t")
      case True
      have a: "vec_set t i a = Inr (t[?k := a])" for a
        using vec_set_nat[OF True, of a] unfolding ik .
      have k': "?k < length (t[?k := a])" for a using True by simp
      have b: "vec_get (t[?k := a]) i = Inr a" for a
        using vec_get_nat[OF k', of a] True unfolding ik by simp
      have c: "vec_set (t[?k := a]) i b = Inr (t[?k := b])" for a b
        using vec_set_nat[OF k', of a b] unfolding ik by simp
      show ?thesis unfolding gx and_then_Inr H a b c ..
    next
      case False
      then have "\<not> i < int (length t)" using i by simp
      then have "vec_set t i a = Inl OutOfBounds" for a
        by (simp add: vec_set_def)
      then show ?thesis unfolding gx and_then_Inr H by simp
    qed
  qed
  also have "\<dots> = Inr (map (\<lambda>k. ?f (int k)) [0..<nat n] @ drop (nat n) w)"
    by (rule for_loop_tabulate[OF n w])
  finally show ?thesis by simp
qed

lemma map_nth_upt: "map (\<lambda>k. f (xs ! k)) [0..<length xs] = map f xs"
proof -
  have "map f xs = map f (map ((!) xs) [0..<length xs])" by (simp only: map_nth)
  also have "\<dots> = map (\<lambda>k. f (xs ! k)) [0..<length xs]" by (simp only: map_map o_def)
  finally show ?thesis by (rule sym)
qed

text \<open>
  Claim C5, for the orders 1 to 25, with \<open>x\<close> and \<open>w\<close> of size \<open>n\<close> as the function asks
  and a \<^verbatim>\<open>dgeev\<close> that keeps to its documented sizes. The coefficient vector is the row
  \<open>n\<close> of the recurrence; the nodes are what \<^verbatim>\<open>findPolyRoots\<close> returns for it, exactly \<open>n\<close>
  of them; there are exactly \<open>n\<close> weights, the weight of the node \<open>x\<^sub>i\<close> being the
  exponential of \<open>(n - 1) log 2 + lgamma(n + 1) + log(\<pi>) / 2 - 2 log n - 2 log |H\<^bsub>n-1\<^esub>(x\<^sub>i)|\<close>
  with \<open>H\<^bsub>n-1\<^esub>\<close> from \<^verbatim>\<open>hermitePoly\<close>, which returns the value of the evaluation recurrence
  (when \<open>H\<^bsub>n-1\<^esub>(x\<^sub>i) = 0\<close> the logarithm is not finite); the status returned is 0.
\<close>

theorem gaussHermiteDataDirect_rule:
  assumes "1 \<le> n" and "n \<le> 25" and "length x = nat n" and "length w = nat n"
    and "dgeev_sizes dgeev n"
  shows "\<exists>xs. hermitePolyCoef n (replicate (nat n + 1) 0) = Inr (map real_of_int (hermite_row (nat n)))
    \<and> findPolyRoots dgeev (map real_of_int (hermite_row (nat n))) n x = Inr xs
    \<and> length xs = nat n
    \<and> gaussHermiteDataDirect dgeev n x w
        = Inr (0, xs, map (\<lambda>xi. map_option exp (log_weight n (hermite_H xi (nat (n - 1))))) xs)
    \<and> (\<forall>xi. hermitePoly xi (n - 1) = Inr (hermite_H xi (nat (n - 1))))
    \<and> (\<forall>h. h \<noteq> 0 \<longrightarrow>
          map_option exp (log_weight n h)
            = Some (exp ((of_int n - 1) * ln 2 + lgamma (n + 1) + 0.5 * ln pi
                - 2 * ln (of_int n) - 2 * ln \<bar>h\<bar>)))"
proof -
  let ?c = "map real_of_int (hermite_row (nat n))"
  let ?H = "\<lambda>y. hermite_H y (nat (n - 1))"
  have n0: "0 \<le> n" using assms(1) by simp
  have "hermitePolyCoef n (replicate (nat n + 1) 0)
      = Inr (?c @ drop (nat n + 1) (replicate (nat n + 1) 0))"
    by (rule hermitePolyCoef_to_25[OF n0 assms(2)]) simp
  then have coef: "hermitePolyCoef n (replicate (nat n + 1) 0) = Inr ?c" by simp
  have nn: "n * n < 2 ^ 31"
  proof -
    have "n * n \<le> 25 * 25" using assms(1,2) by (intro mult_mono) simp_all
    then show ?thesis by simp
  qed
  have len: "nat n < length ?c" by (simp add: length_hermite_row)
  from findPolyRoots_returns[OF n0 nn len assms(3,5)]
  obtain xs where xs: "findPolyRoots dgeev ?c n x = Inr xs" "length xs = nat n" by blast
  have H: "hermitePoly y (n - 1) = Inr (?H y)" for y
    using assms(1,2) by (intro hermitePoly_H) simp_all
  have "for_loop 0 n (\<lambda>i w.
         and_then (vec_get xs i) (\<lambda>xi.
         and_then (hermitePoly xi (n - 1)) (\<lambda>h.
         and_then (vec_set w i (log_weight n h)) (\<lambda>w.
         and_then (vec_get w i) (\<lambda>wi.
         vec_set w i (map_option exp wi)))))) w
    = Inr (map (\<lambda>k. map_option exp (log_weight n (?H (xs ! k)))) [0..<nat n] @ drop (nat n) w)"
    by (rule weight_loop[OF n0 _ _ H]) (simp_all add: xs(2) assms(4))
  also have "map (\<lambda>k. map_option exp (log_weight n (?H (xs ! k)))) [0..<nat n]
      = map (\<lambda>xi. map_option exp (log_weight n (?H xi))) xs"
    unfolding xs(2)[symmetric] by (rule map_nth_upt)
  finally have loop: "for_loop 0 n (\<lambda>i w.
         and_then (vec_get xs i) (\<lambda>xi.
         and_then (hermitePoly xi (n - 1)) (\<lambda>h.
         and_then (vec_set w i (log_weight n h)) (\<lambda>w.
         and_then (vec_get w i) (\<lambda>wi.
         vec_set w i (map_option exp wi)))))) w
    = Inr (map (\<lambda>xi. map_option exp (log_weight n (?H xi))) xs)"
    using assms(4) by simp
  have new: "new_vector (n + 1) (0::real) = Inr (replicate (nat n + 1) 0)"
    using n0 by (simp add: new_vector_def nat_add_distrib)
  have run: "gaussHermiteDataDirect dgeev n x w
      = Inr (0, xs, map (\<lambda>xi. map_option exp (log_weight n (?H xi))) xs)"
    unfolding gaussHermiteDataDirect_def new and_then_Inr coef xs(1) loop ..
  have formula: "\<forall>h. h \<noteq> 0 \<longrightarrow>
          map_option exp (log_weight n h)
            = Some (exp ((of_int n - 1) * ln 2 + lgamma (n + 1) + 0.5 * ln pi
                - 2 * ln (of_int n) - 2 * ln \<bar>h\<bar>))"
    by (simp add: log_weight_def dlog_def)
  from coef xs run formula H show ?thesis by blast
qed

lemma exp_half_ln_pi: "exp (ln pi / 2) = sqrt pi"
proof -
  have "sqrt pi = pi powr (1 / 2)" by (simp add: powr_half_sqrt)
  also have "\<dots> = exp (ln pi / 2)" using pi_gt_zero by (simp add: powr_def)
  finally show ?thesis by simp
qed

theorem gaussHermiteDataDirect_rule_witness:
  "gaussHermiteDataDirect (\<lambda>a. \<lparr>gv_WR = [0], gv_WI = [0], gv_WORK1 = 34, gv_INFO = 0\<rparr>)
      1 [0] [None] = Inr (0, [0], [Some (sqrt pi)])"
proof -
  let ?d = "\<lambda>a::dgeev_args. \<lparr>gv_WR = [0::real], gv_WI = [0::real], gv_WORK1 = 34, gv_INFO = 0\<rparr>"
  let ?c = "map real_of_int (hermite_row (nat 1))"
  have sz: "dgeev_sizes ?d 1" by (simp add: dgeev_sizes_def)
  from gaussHermiteDataDirect_rule[of 1 "[0]" "[None]" ?d, OF _ _ _ _ sz]
  obtain xs where fr: "findPolyRoots ?d ?c 1 [0] = Inr xs"
    and run: "gaussHermiteDataDirect ?d 1 [0] [None]
        = Inr (0, xs, map (\<lambda>xi. map_option exp (log_weight 1 (hermite_H xi (nat (1 - 1))))) xs)"
    by auto
  have "\<exists>C. companion ?c 1 = Inr C"
    using companion_eq[of 1 ?c] by (simp add: length_hermite_row)
  then obtain C where C: "companion ?c 1 = Inr C" by blast
  have "findPolyRoots ?d ?c 1 [0] = Inr [0]"
    by (subst findPolyRoots_eq[OF C _ sz]) simp_all
  with fr have xs: "xs = [0]" by simp
  have "log_weight 1 (hermite_H 0 (nat (1 - 1))) = Some (ln pi / 2)"
    by (simp add: log_weight_def dlog_def lgamma_def)
  then have "map_option exp (log_weight 1 (hermite_H 0 (nat (1 - 1)))) = Some (sqrt pi)"
    by (simp add: exp_half_ln_pi)
  with run show ?thesis unfolding xs by simp
qed

text \<open>
  Claim C5 fails at the order 26: the coefficients of \<open>H\<^sub>2\<^sub>6\<close> cannot be computed in a
  \<^verbatim>\<open>long\<close>, and the engine stops before any root is looked for.
\<close>

theorem gaussHermiteDataDirect_order_26:
  "gaussHermiteDataDirect
      (\<lambda>a. \<lparr>gv_WR = replicate 26 0, gv_WI = replicate 26 0, gv_WORK1 = 884, gv_INFO = 0\<rparr>)
      26 (replicate 26 0) (replicate 26 None) = Inl ConversionRange"
proof -
  have new: "new_vector (26 + 1) (0::real) = Inr (replicate 27 0)"
    by (simp add: new_vector_def)
  have "hermitePolyCoef 26 (replicate 27 0) = Inl ConversionRange"
    by (rule hermitePolyCoef_overflow) simp_all
  then show ?thesis
    unfolding gaussHermiteDataDirect_def new and_then_Inr by simp
qed


end
